theory Spec2Isabelle
  imports Complex_Main "HOL-Library.Char_ord" "HOL-Library.List_Lexorder"
begin

section \<open>Persistence store\<close>

text \<open>
  The four tables of \<^verbatim>\<open>init_db\<close> (app/utils/database.py). A table is the list of its
  rows in insertion order. Identifiers are the strings that \<^verbatim>\<open>str(uuid.uuid4())\<close>
  produces; a nullable column is an \<open>option\<close>. \<^verbatim>\<open>created_at\<close> is a point in time,
  compared as SQLite compares its text form, so a natural number here.
\<close>

record folder =
  f_id :: string
  f_name :: string
  f_parent_id :: "string option"
  f_created_at :: nat

record tag =
  t_id :: string
  t_name :: string
  t_created_at :: nat

record bookmark =
  b_id :: string
  b_url :: string
  b_title :: string
  b_description :: "string option"
  b_favicon :: "string option"
  b_folder_id :: "string option"
  b_pinned :: int
  b_created_at :: nat

record store =
  folders :: "folder list"
  tags :: "tag list"
  bookmarks :: "bookmark list"
  bookmark_tags :: "(string \<times> string) list"
  current_timestamp :: nat

definition empty_store :: store where
  "empty_store = \<lparr>folders = [], tags = [], bookmarks = [], bookmark_tags = [],
     current_timestamp = 0\<rparr>"

text \<open>The exceptions that the modelled functions can raise.\<close>

datatype py_error =
    RecursionError | ValueError | ZeroDivisionError | IntegrityError | OperationalError
  | DataError

text \<open>Python's truth value of an optional string: \<^verbatim>\<open>None\<close> and \<^verbatim>\<open>''\<close> are false.\<close>

fun truthy :: "string option \<Rightarrow> bool" where
  "truthy None = False"
| "truthy (Some s) = (s \<noteq> [])"

section \<open>Folder hierarchy (app/services/folder\_service.py)\<close>

text \<open>\<^verbatim>\<open>SELECT id FROM folders WHERE parent_id = ?\<close>\<close>

definition children_of :: "folder list \<Rightarrow> string \<Rightarrow> string list" where
  "children_of fs pid = map f_id (filter (\<lambda>f. f_parent_id f = Some pid) fs)"

text \<open>
  \<^verbatim>\<open>ids.extend(get_descendants(child['id']))\<close> for each child in turn; an exception
  raised by a recursive call ends the loop.
\<close>

fun extend_results :: "string list \<Rightarrow> (py_error + string list) list \<Rightarrow> py_error + string list" where
  "extend_results ids [] = Inr ids"
| "extend_results ids (Inl e # rs) = Inl e"
| "extend_results ids (Inr xs # rs) = extend_results (ids @ xs) rs"

text \<open>
  The inner function \<^verbatim>\<open>get_descendants\<close>. Python bounds the depth of the recursion by
  the interpreter's recursion limit and raises \<^verbatim>\<open>RecursionError\<close> beyond it; the
  first argument is the depth still available.
\<close>

fun get_descendants :: "nat \<Rightarrow> folder list \<Rightarrow> string \<Rightarrow> py_error + string list" where
  "get_descendants 0 fs parent_id = Inl RecursionError"
| "get_descendants (Suc n) fs parent_id =
     extend_results [parent_id] (map (get_descendants n fs) (children_of fs parent_id))"

definition get_folder_with_descendants :: "nat \<Rightarrow> store \<Rightarrow> string \<Rightarrow> py_error + string list" where
  "get_folder_with_descendants limit db folder_id = get_descendants limit (folders db) folder_id"

text \<open>
  \<^verbatim>\<open>create_folder\<close>: one INSERT. The identifier is the value that \<^verbatim>\<open>uuid.uuid4()\<close>
  returned, passed in as \<open>new_id\<close>.
\<close>

definition create_folder :: "string \<Rightarrow> string \<Rightarrow> string option \<Rightarrow> store \<Rightarrow> store" where
  "create_folder new_id name parent_id db =
     db\<lparr>folders := folders db @
        [\<lparr>f_id = new_id, f_name = name, f_parent_id = parent_id,
          f_created_at = current_timestamp db\<rparr>]\<rparr>"



text \<open>
  \<^verbatim>\<open>delete_folder\<close>: \<^verbatim>\<open>DELETE FROM folders WHERE id = ?\<close>. The connection of
  \<^verbatim>\<open>get_db\<close> is opened by \<^verbatim>\<open>sqlite3.connect\<close> and never issues
  \<^verbatim>\<open>PRAGMA foreign_keys = ON\<close>, so SQLite does not run the \<^verbatim>\<open>ON DELETE\<close> actions
  that the schema declares: the statement removes the folder's row and nothing else.
\<close>

definition delete_folder :: "string \<Rightarrow> store \<Rightarrow> store" where
  "delete_folder folder_id db = db\<lparr>folders := filter (\<lambda>f. f_id f \<noteq> folder_id) (folders db)\<rparr>"

text \<open>The stored parent relation: the pairs (child id, parent id).\<close>

definition parent_rel :: "folder list \<Rightarrow> (string \<times> string) set" where
  "parent_rel fs = {(f_id f, p) | f p. f \<in> set fs \<and> f_parent_id f = Some p}"

text \<open>The strict descendants of a folder id.\<close>

definition strict_descendants :: "folder list \<Rightarrow> string \<Rightarrow> string set" where
  "strict_descendants fs x = {y. (y, x) \<in> (parent_rel fs)\<^sup>+}"



definition two_level_store :: store where
  "two_level_store = empty_store\<lparr>folders :=
     [\<lparr>f_id = ''p'', f_name = ''Work'', f_parent_id = None, f_created_at = 0\<rparr>,
      \<lparr>f_id = ''c'', f_name = ''Projects'', f_parent_id = Some ''p'', f_created_at = 0\<rparr>]\<rparr>"


section \<open>Bookmark queries (app/services/bookmark\_service.py)\<close>

text \<open>
  A string is the list of its characters, a character standing for the code point of the
  same number. SQLite stores text in UTF-8, where a code point below 128 takes one byte
  and the other ones here take two; its C interface reads a text as a C string, which ends
  at the first NUL character.
\<close>

definition utf8_length :: "string \<Rightarrow> nat" where
  "utf8_length s = length s + length (filter (\<lambda>c. 128 \<le> (of_char c :: nat)) s)"

definition c_string :: "string \<Rightarrow> string" where
  "c_string s = takeWhile (\<lambda>c. c \<noteq> CHR 0x00) s"

text \<open>
  The bounds that a query can run into. \<open>int_max_str_digits\<close> is Python's limit on the
  digits of an integer that is converted to text (\<^verbatim>\<open>sys.get_int_max_str_digits()\<close>, 0 for
  no limit); the other three are SQLite's \<^verbatim>\<open>SQLITE_LIMIT_LENGTH\<close>,
  \<^verbatim>\<open>SQLITE_LIMIT_VARIABLE_NUMBER\<close> and \<^verbatim>\<open>SQLITE_LIMIT_LIKE_PATTERN_LENGTH\<close>. The application
  sets none of them, so they are those of the installation; \<open>default_limits\<close> has the
  values that Python 3.12 and SQLite 3.46 are built with.
\<close>

record limits =
  int_max_str_digits :: int
  limit_length :: int
  limit_variable_number :: int
  limit_like_pattern_length :: int

definition default_limits :: limits where
  "default_limits = \<lparr>int_max_str_digits = 4300, limit_length = 1000000000,
     limit_variable_number = 32766, limit_like_pattern_length = 50000\<rparr>"

text \<open>
  SQLite's \<^verbatim>\<open>patternCompare\<close> as \<^verbatim>\<open>LIKE\<close> without \<^verbatim>\<open>ESCAPE\<close> calls it: in the pattern
  \<^verbatim>\<open>%\<close> stands for any run of characters and \<^verbatim>\<open>_\<close> for any one character; every other
  character matches itself, the letters A-Z and a-z without regard to case.
\<close>

definition ascii_lower :: "char \<Rightarrow> char" where
  "ascii_lower c = (if CHR ''A'' \<le> c \<and> c \<le> CHR ''Z'' then char_of (of_char c + (32::nat)) else c)"

fun pattern_compare :: "string \<Rightarrow> string \<Rightarrow> bool" where
  "pattern_compare [] s = (s = [])"
| "pattern_compare (p # ps) s =
     (if p = CHR ''%'' then
        pattern_compare ps s \<or> (case s of [] \<Rightarrow> False | c # cs \<Rightarrow> pattern_compare (p # ps) cs)
      else
        (case s of [] \<Rightarrow> False
         | c # cs \<Rightarrow> (p = CHR ''_'' \<or> ascii_lower p = ascii_lower c) \<and> pattern_compare ps cs))"

text \<open>
  \<^verbatim>\<open>x LIKE ?\<close> (SQLite's \<^verbatim>\<open>likeFunc\<close>) for a column value \<open>x\<close> that may be NULL. A pattern
  of more bytes than the limit is the error \<^verbatim>\<open>LIKE or GLOB pattern too complex\<close>, whatever
  \<open>x\<close> is; otherwise NULL is not a match, and a text is matched as a C string against the
  pattern as a C string.
\<close>

definition like :: "limits \<Rightarrow> string \<Rightarrow> string option \<Rightarrow> py_error + bool" where
  "like lims pat x =
     (if limit_like_pattern_length lims < int (utf8_length pat) then Inl OperationalError
      else Inr (case x of None \<Rightarrow> False
                | Some s \<Rightarrow> pattern_compare (c_string pat) (c_string s)))"

text \<open>
  \<^verbatim>\<open>AND\<close> and \<^verbatim>\<open>OR\<close> in a \<^verbatim>\<open>WHERE\<close> clause: the right operand is evaluated, and can
  raise, only when the left one has not decided the result.
\<close>

definition sql_and :: "py_error + bool \<Rightarrow> py_error + bool \<Rightarrow> py_error + bool" where
  "sql_and p q = (case p of Inl e \<Rightarrow> Inl e | Inr x \<Rightarrow> if x then q else Inr False)"

definition sql_or :: "py_error + bool \<Rightarrow> py_error + bool \<Rightarrow> py_error + bool" where
  "sql_or p q = (case p of Inl e \<Rightarrow> Inl e | Inr x \<Rightarrow> if x then Inr True else q)"

text \<open>The rows of a scan that satisfy a condition; an error of the condition ends the scan.\<close>

fun sql_where :: "('a \<Rightarrow> py_error + bool) \<Rightarrow> 'a list \<Rightarrow> py_error + 'a list" where
  "sql_where cond [] = Inr []"
| "sql_where cond (r # rs) =
     (case cond r of
        Inl e \<Rightarrow> Inl e
      | Inr keep \<Rightarrow>
          (case sql_where cond rs of
             Inl e \<Rightarrow> Inl e
           | Inr kept \<Rightarrow> Inr (if keep then r # kept else kept)))"

text \<open>
  A \<^verbatim>\<open>LEFT JOIN\<close> step: the rows of the right table that satisfy the \<^verbatim>\<open>ON\<close>
  condition, or one NULL row when there is none.
\<close>

definition left_join :: "'b list \<Rightarrow> ('b \<Rightarrow> bool) \<Rightarrow> 'b option list" where
  "left_join tbl on_cond = (if filter on_cond tbl = [] then [None] else map Some (filter on_cond tbl))"

record joined_row =
  jr_b :: bookmark
  jr_f :: "folder option"
  jr_bt :: "(string \<times> string) option"
  jr_t :: "tag option"

text \<open>
  \<^verbatim>\<open>FROM bookmarks b LEFT JOIN folders f ON b.folder_id = f.id
  LEFT JOIN bookmark_tags bt ON b.id = bt.bookmark_id LEFT JOIN tags t ON bt.tag_id = t.id\<close>.
  A row of \<^verbatim>\<open>bookmark_tags\<close> is the pair (bookmark id, tag id).
\<close>

definition from_joined :: "store \<Rightarrow> joined_row list" where
  "from_joined db =
     concat (map (\<lambda>b.
       concat (map (\<lambda>f.
         concat (map (\<lambda>bt.
           map (\<lambda>t. \<lparr>jr_b = b, jr_f = f, jr_bt = bt, jr_t = t\<rparr>)
             (left_join (tags db) (\<lambda>t. case bt of None \<Rightarrow> False | Some x \<Rightarrow> snd x = t_id t)))
           (left_join (bookmark_tags db) (\<lambda>bt. b_id b = fst bt))))
         (left_join (folders db) (\<lambda>f. b_folder_id b = Some (f_id f)))))
       (bookmarks db))"

text \<open>
  The \<^verbatim>\<open>WHERE\<close> clause that both queries of \<^verbatim>\<open>get_all_bookmarks\<close> assemble from the
  same tests, in this order: the folder scope, the tag filter and the search term
  \<^verbatim>\<open>f'%{search}%'\<close> tried on the title, the URL and the description.
\<close>

definition where_clause ::
  "limits \<Rightarrow> store \<Rightarrow> bool \<Rightarrow> string list \<Rightarrow> string option \<Rightarrow> string option \<Rightarrow> bookmark \<Rightarrow>
   py_error + bool" where
  "where_clause lims db is_unfiled folder_ids tag_id search b =
     sql_and
       (Inr (if is_unfiled then b_folder_id b = None
             else if folder_ids \<noteq> [] then
               (case b_folder_id b of None \<Rightarrow> False | Some f \<Rightarrow> f \<in> set folder_ids)
             else True))
       (sql_and
          (Inr (if truthy tag_id then
                  b_id b \<in> set (map fst (filter (\<lambda>bt. snd bt = the tag_id) (bookmark_tags db)))
                else True))
          (if truthy search then
             (let search_term = ''%'' @ the search @ ''%'' in
                sql_or (like lims search_term (Some (b_title b)))
                  (sql_or (like lims search_term (Some (b_url b)))
                     (like lims search_term (b_description b))))
           else Inr True))"

text \<open>
  The parameters that \<^verbatim>\<open>get_all_bookmarks\<close> collects for the placeholders of either query
  (\<^verbatim>\<open>count_params\<close> and \<^verbatim>\<open>params\<close>), and what \<^verbatim>\<open>db.execute\<close> checks before the first row
  is read: more placeholders than the limit are the error \<^verbatim>\<open>too many SQL variables\<close>, and
  a parameter of more bytes than the limit is the error \<^verbatim>\<open>string or blob too big\<close>.
\<close>

definition query_parameters ::
  "bool \<Rightarrow> string list \<Rightarrow> string option \<Rightarrow> string option \<Rightarrow> string list" where
  "query_parameters is_unfiled folder_ids tag_id search =
     (if is_unfiled then [] else folder_ids) @
     (if truthy tag_id then [the tag_id] else []) @
     (if truthy search then
        (let search_term = ''%'' @ the search @ ''%'' in [search_term, search_term, search_term])
      else [])"

definition prepare_and_bind :: "limits \<Rightarrow> string list \<Rightarrow> py_error option" where
  "prepare_and_bind lims params =
     (if limit_variable_number lims < int (length params) then Some OperationalError
      else if list_ex (\<lambda>p. limit_length lims < int (utf8_length p)) params then Some DataError
      else None)"

text \<open>\<^verbatim>\<open>FROM\<close> and \<^verbatim>\<open>WHERE\<close> of either query: the joined rows that pass the filters.\<close>

definition from_where ::
  "limits \<Rightarrow> store \<Rightarrow> bool \<Rightarrow> string list \<Rightarrow> string option \<Rightarrow> string option \<Rightarrow>
   py_error + joined_row list" where
  "from_where lims db is_unfiled folder_ids tag_id search =
     (case prepare_and_bind lims (query_parameters is_unfiled folder_ids tag_id search) of
        Some e \<Rightarrow> Inl e
      | None \<Rightarrow>
          sql_where (\<lambda>r. where_clause lims db is_unfiled folder_ids tag_id search (jr_b r))
            (from_joined db))"

text \<open>\<^verbatim>\<open>SELECT COUNT(DISTINCT b.id)\<close> over the joined and filtered rows.\<close>

definition count_query ::
  "limits \<Rightarrow> store \<Rightarrow> bool \<Rightarrow> string list \<Rightarrow> string option \<Rightarrow> string option \<Rightarrow> py_error + nat" where
  "count_query lims db is_unfiled folder_ids tag_id search =
     (case from_where lims db is_unfiled folder_ids tag_id search of
        Inl e \<Rightarrow> Inl e
      | Inr rows \<Rightarrow> Inr (length (remdups (map (\<lambda>r. b_id (jr_b r)) rows))))"

text \<open>\<^verbatim>\<open>GROUP BY b.id\<close>: the rows of each bookmark id, one group per id.\<close>

function group_by_id :: "joined_row list \<Rightarrow> joined_row list list" where
  "group_by_id [] = []"
| "group_by_id (r # rs) =
     (r # filter (\<lambda>x. b_id (jr_b x) = b_id (jr_b r)) rs) #
     group_by_id (filter (\<lambda>x. b_id (jr_b x) \<noteq> b_id (jr_b r)) rs)"
  by pat_completeness auto
termination
  by (relation "measure length") (simp_all add: less_Suc_eq_le)

text \<open>\<^verbatim>\<open>GROUP_CONCAT(x, ',')\<close>: the non-NULL values joined by commas, NULL when there is none.\<close>

fun join_commas :: "string list \<Rightarrow> string" where
  "join_commas [] = []"
| "join_commas [x] = x"
| "join_commas (x # y # ys) = x @ '','' @ join_commas (y # ys)"

definition group_concat :: "string option list \<Rightarrow> string option" where
  "group_concat vs = (case List.map_filter id vs of [] \<Rightarrow> None | x # xs \<Rightarrow> Some (join_commas (x # xs)))"

text \<open>
  A row of the result: the columns \<^verbatim>\<open>b.*\<close>, \<^verbatim>\<open>folder_name\<close>, \<^verbatim>\<open>tag_names\<close> and
  \<^verbatim>\<open>tag_ids\<close>, and the key \<^verbatim>\<open>tags\<close> that the Python loop adds.
\<close>

record bookmark_row = bookmark +
  r_folder_name :: "string option"
  r_tag_names :: "string option"
  r_tag_ids :: "string option"
  r_tags :: "(string \<times> string) list"

text \<open>Python's \<^verbatim>\<open>s.split(',')\<close>.\<close>

fun split_commas :: "string \<Rightarrow> string list" where
  "split_commas [] = [[]]"
| "split_commas (c # cs) =
     (if c = CHR '','' then [] # split_commas cs
      else (case split_commas cs of [] \<Rightarrow> [[c]] | w # ws \<Rightarrow> (c # w) # ws))"

definition select_group :: "joined_row list \<Rightarrow> bookmark_row" where
  "select_group g =
     (let names = group_concat (map (\<lambda>r. map_option t_name (jr_t r)) g);
          ids = group_concat (map (\<lambda>r. map_option t_id (jr_t r)) g)
      in bookmark.extend (jr_b (hd g))
           \<lparr>r_folder_name = map_option f_name (jr_f (hd g)), r_tag_names = names, r_tag_ids = ids,
            r_tags = (if truthy names then zip (split_commas (the ids)) (split_commas (the names))
                       else [])\<rparr>)"

text \<open>
  \<^verbatim>\<open>ORDER BY b.pinned DESC, {sort_column} {sort_direction}\<close>. The column is looked up in
  \<^verbatim>\<open>valid_sorts\<close> with \<^verbatim>\<open>b.created_at\<close> as the default; text columns compare as
  SQLite's BINARY collation does. Rows that the key does not tell apart come in an order
  that SQLite leaves open; here they keep the order of the grouping.
\<close>

datatype sort_column = Col_title | Col_url | Col_created_at

definition valid_sorts :: "string \<Rightarrow> sort_column" where
  "valid_sorts sort_by =
     (if sort_by = ''title'' then Col_title else if sort_by = ''url'' then Col_url
      else Col_created_at)"

fun column_le :: "sort_column \<Rightarrow> bookmark_row \<Rightarrow> bookmark_row \<Rightarrow> bool" where
  "column_le Col_title x y = (b_title x \<le> b_title y)"
| "column_le Col_url x y = (b_url x \<le> b_url y)"
| "column_le Col_created_at x y = (b_created_at x \<le> b_created_at y)"

definition order_le :: "sort_column \<Rightarrow> bool \<Rightarrow> bookmark_row \<Rightarrow> bookmark_row \<Rightarrow> bool" where
  "order_le col asc x y \<longleftrightarrow>
     b_pinned x > b_pinned y \<or>
     (b_pinned x = b_pinned y \<and> (if asc then column_le col x y else column_le col y x))"

fun insert_by :: "('a \<Rightarrow> 'a \<Rightarrow> bool) \<Rightarrow> 'a \<Rightarrow> 'a list \<Rightarrow> 'a list" where
  "insert_by le x [] = [x]"
| "insert_by le x (y # ys) = (if le x y then x # y # ys else y # insert_by le x ys)"

definition order_by :: "('a \<Rightarrow> 'a \<Rightarrow> bool) \<Rightarrow> 'a list \<Rightarrow> 'a list" where
  "order_by le xs = foldr (insert_by le) xs []"

text \<open>The second query of \<^verbatim>\<open>get_all_bookmarks\<close> up to and including \<^verbatim>\<open>ORDER BY\<close>.\<close>

definition select_query ::
  "limits \<Rightarrow> store \<Rightarrow> bool \<Rightarrow> string list \<Rightarrow> string option \<Rightarrow> string option \<Rightarrow> string \<Rightarrow> string \<Rightarrow>
   py_error + bookmark_row list" where
  "select_query lims db is_unfiled folder_ids tag_id search sort_by sort_order =
     (case from_where lims db is_unfiled folder_ids tag_id search of
        Inl e \<Rightarrow> Inl e
      | Inr rows \<Rightarrow>
          Inr (order_by (order_le (valid_sorts sort_by) (sort_order = ''asc''))
                 (remdups (map select_group (group_by_id rows)))))"

text \<open>
  \<^verbatim>\<open>LIMIT {per_page} OFFSET {offset}\<close>, the two numbers written into the statement in
  decimal. A number outside the range of a signed 64-bit integer is read as a floating
  point value, and the statement fails with \<^verbatim>\<open>datatype mismatch\<close>
  (\<^verbatim>\<open>sqlite3.IntegrityError\<close>) whatever the rows are. Within the range SQLite reads a
  negative offset as zero and a negative limit as no limit.
\<close>

definition is_int64 :: "int \<Rightarrow> bool" where
  "is_int64 n \<longleftrightarrow> - (2 ^ 63) \<le> n \<and> n < 2 ^ 63"

definition limit_offset :: "int \<Rightarrow> int \<Rightarrow> 'a list \<Rightarrow> py_error + 'a list" where
  "limit_offset row_limit row_offset xs =
     (if \<not> is_int64 row_limit \<or> \<not> is_int64 row_offset then Inl IntegrityError
      else if row_limit < 0 then Inr (drop (nat row_offset) xs)
      else Inr (take (nat row_limit) (drop (nat row_offset) xs)))"

text \<open>
  The number of decimal digits of a non-negative integer, and whether Python converts an
  integer to text: \<^verbatim>\<open>f'{n}'\<close> raises \<^verbatim>\<open>ValueError\<close> for an integer of more digits than
  the limit.
\<close>

function decimal_digits :: "int \<Rightarrow> int" where
  "decimal_digits n = (if n < 10 then 1 else 1 + decimal_digits (n div 10))"
  by pat_completeness auto
termination
  by (relation "measure nat") simp_all

declare decimal_digits.simps [simp del]

definition int_to_str_ok :: "limits \<Rightarrow> int \<Rightarrow> bool" where
  "int_to_str_ok lims n \<longleftrightarrow>
     int_max_str_digits lims = 0 \<or> decimal_digits \<bar>n\<bar> \<le> int_max_str_digits lims"

record query_result =
  qr_bookmarks :: "bookmark_row list"
  qr_total :: int
  qr_page :: int
  qr_per_page :: int
  qr_total_pages :: int

text \<open>Lines 40 to 48: the folder ids that scope the query.\<close>

definition folder_scope :: "nat \<Rightarrow> store \<Rightarrow> string option \<Rightarrow> bool \<Rightarrow> py_error + string list" where
  "folder_scope limit db folder_id include_subfolders =
     (if truthy folder_id \<and> folder_id \<noteq> Some ''unfiled'' then
        (if include_subfolders then get_folder_with_descendants limit db (the folder_id)
         else Inr [the folder_id])
      else Inr [])"

text \<open>
  \<^verbatim>\<open>get_all_bookmarks\<close>. The first argument holds the limits of the installation, the
  second one the recursion depth available to \<^verbatim>\<open>get_folder_with_descendants\<close>. The steps
  are those of the source, each of which can raise: the folder scope, the count query,
  the text of the second query with \<^verbatim>\<open>per_page\<close> and \<^verbatim>\<open>offset\<close> formatted into it, that
  query, and the floor division that computes \<^verbatim>\<open>total_pages\<close>
  (\<^verbatim>\<open>ZeroDivisionError\<close> for \<^verbatim>\<open>per_page = 0\<close>).
\<close>

definition get_all_bookmarks ::
  "limits \<Rightarrow> nat \<Rightarrow> store \<Rightarrow> string option \<Rightarrow> string option \<Rightarrow> string option \<Rightarrow> string \<Rightarrow>
   string \<Rightarrow> bool \<Rightarrow> int \<Rightarrow> int \<Rightarrow> py_error + query_result" where
  "get_all_bookmarks lims limit db folder_id tag_id search sort_by sort_order include_subfolders
     page per_page =
     (let is_unfiled = (folder_id = Some ''unfiled'') in
      case folder_scope limit db folder_id include_subfolders of
        Inl e \<Rightarrow> Inl e
      | Inr folder_ids \<Rightarrow>
          (case count_query lims db is_unfiled folder_ids tag_id search of
             Inl e \<Rightarrow> Inl e
           | Inr n \<Rightarrow>
               (let total = int n;
                    offset = (page - 1) * per_page
                in if \<not> int_to_str_ok lims per_page \<or> \<not> int_to_str_ok lims offset
                   then Inl ValueError
                   else
                     (case select_query lims db is_unfiled folder_ids tag_id search sort_by
                             sort_order of
                        Inl e \<Rightarrow> Inl e
                      | Inr full \<Rightarrow>
                          (case limit_offset per_page offset full of
                             Inl e \<Rightarrow> Inl e
                           | Inr rows \<Rightarrow>
                               if per_page = 0 then Inl ZeroDivisionError
                               else Inr \<lparr>qr_bookmarks = rows, qr_total = total, qr_page = page,
                                         qr_per_page = per_page,
                                         qr_total_pages = (total + per_page - 1) div per_page\<rparr>)))))"

text \<open>A store with one pinned and three unpinned bookmarks, two tags and one folder.\<close>

definition sample_bookmark :: "string \<Rightarrow> string \<Rightarrow> string option \<Rightarrow> int \<Rightarrow> nat \<Rightarrow> bookmark" where
  "sample_bookmark i title folder pinned created =
     \<lparr>b_id = i, b_url = ''https://example.com/'' @ i, b_title = title, b_description = None,
      b_favicon = None, b_folder_id = folder, b_pinned = pinned, b_created_at = created\<rparr>"

definition sample_store :: store where
  "sample_store = empty_store\<lparr>
     folders := [\<lparr>f_id = ''f1'', f_name = ''Languages'', f_parent_id = None, f_created_at = 0\<rparr>],
     tags := [\<lparr>t_id = ''t1'', t_name = ''code'', t_created_at = 0\<rparr>,
              \<lparr>t_id = ''t2'', t_name = ''fun'', t_created_at = 0\<rparr>],
     bookmarks := [sample_bookmark ''1'' ''Python'' (Some ''f1'') 0 1,
                   sample_bookmark ''2'' ''Copy'' None 1 2,
                   sample_bookmark ''3'' ''Happy'' None 0 3,
                   sample_bookmark ''4'' ''Other'' None 0 4],
     bookmark_tags := [(''1'', ''t1''), (''1'', ''t2''), (''3'', ''t2'')]\<rparr>"

text \<open>
  The order that a caller requests with \<^verbatim>\<open>sort_by\<close> and \<^verbatim>\<open>sort_order\<close>, read off the
  fields of two rows: ascending for \<^verbatim>\<open>'asc'\<close> and descending otherwise, by title, by URL,
  and by creation time for any other field name.
\<close>

definition in_requested_order :: "string \<Rightarrow> string \<Rightarrow> bookmark_row \<Rightarrow> bookmark_row \<Rightarrow> bool" where
  "in_requested_order sort_by sort_order x y =
     (if sort_order = ''asc'' then
        (if sort_by = ''title'' then b_title x \<le> b_title y
         else if sort_by = ''url'' then b_url x \<le> b_url y
         else b_created_at x \<le> b_created_at y)
      else
        (if sort_by = ''title'' then b_title y \<le> b_title x
         else if sort_by = ''url'' then b_url y \<le> b_url x
         else b_created_at y \<le> b_created_at x))"

text \<open>
  Substring search without regard to the case of ASCII letters: \<open>ci_substring s t\<close> holds
  when \<open>s\<close> occurs in \<open>t\<close> at some position.
\<close>

fun ci_prefix :: "string \<Rightarrow> string \<Rightarrow> bool" where
  "ci_prefix [] t = True"
| "ci_prefix (c # cs) [] = False"
| "ci_prefix (c # cs) (d # ds) = (ascii_lower c = ascii_lower d \<and> ci_prefix cs ds)"

fun ci_substring :: "string \<Rightarrow> string \<Rightarrow> bool" where
  "ci_substring s [] = ci_prefix s []"
| "ci_substring s (d # ds) = (ci_prefix s (d # ds) \<or> ci_substring s ds)"





text \<open>
  \<^verbatim>\<open>toggle_pin\<close>: the new value is 0 for a pinned bookmark and 1 otherwise; \<open>None\<close> when
  no bookmark has the id. The trigger refreshes \<^verbatim>\<open>created_at\<close> of the updated row.
\<close>

definition toggle_pin :: "string \<Rightarrow> store \<Rightarrow> int option \<times> store" where
  "toggle_pin bookmark_id db =
     (case find (\<lambda>b. b_id b = bookmark_id) (bookmarks db) of
        None \<Rightarrow> (None, db)
      | Some bookmark \<Rightarrow>
          (let new_pinned = (if b_pinned bookmark \<noteq> 0 then 0 else 1)
           in (Some new_pinned,
               db\<lparr>bookmarks := map (\<lambda>b. if b_id b = bookmark_id
                     then b\<lparr>b_pinned := new_pinned, b_created_at := current_timestamp db\<rparr>
                     else b) (bookmarks db)\<rparr>)))"

section \<open>Folder tree (get\_folder\_hierarchy)\<close>

text \<open>\<^verbatim>\<open>re.sub(r'[^a-zA-Z0-9]', '', text)\<close>\<close>

definition is_alnum :: "char \<Rightarrow> bool" where
  "is_alnum c \<longleftrightarrow> (CHR ''a'' \<le> c \<and> c \<le> CHR ''z'') \<or> (CHR ''A'' \<le> c \<and> c \<le> CHR ''Z'') \<or>
     (CHR ''0'' \<le> c \<and> c \<le> CHR ''9'')"

definition strip_emoji_for_sort :: "string \<Rightarrow> string" where
  "strip_emoji_for_sort text = filter is_alnum text"

text \<open>
  A value of \<^verbatim>\<open>folder_dict\<close>: the columns of the folder, the two counts of the query and
  the key \<^verbatim>\<open>children\<close>. The dictionaries are shared between \<^verbatim>\<open>folder_dict\<close>,
  \<^verbatim>\<open>root_folders\<close> and the \<^verbatim>\<open>children\<close> lists, so a list holds the ids of its
  members and \<^verbatim>\<open>folder_dict\<close> (its values, in the order of the dictionary) holds the
  one copy of each. The ids are the primary key of the table.
\<close>

record hier_node = folder +
  bookmark_count :: nat
  subfolder_count :: nat
  children :: "string list"

record hierarchy =
  folder_dict :: "hier_node list"
  root_folders :: "string list"

text \<open>The query of \<^verbatim>\<open>get_folder_hierarchy\<close>, one row for each folder, with empty children.\<close>

definition hierarchy_rows :: "store \<Rightarrow> hier_node list" where
  "hierarchy_rows db =
     map (\<lambda>f. folder.extend f
       \<lparr>bookmark_count =
           length (remdups (map b_id (filter (\<lambda>b. b_folder_id b = Some (f_id f)) (bookmarks db)))),
        subfolder_count = length (filter (\<lambda>g. f_parent_id g = Some (f_id f)) (folders db)),
        children = []\<rparr>) (folders db)"

definition children_at :: "hier_node list \<Rightarrow> string \<Rightarrow> string list" where
  "children_at fd i = (case find (\<lambda>n. f_id n = i) fd of None \<Rightarrow> [] | Some n \<Rightarrow> children n)"

definition set_children :: "hier_node list \<Rightarrow> string \<Rightarrow> string list \<Rightarrow> hier_node list" where
  "set_children fd i cs = map (\<lambda>n. if f_id n = i then n\<lparr>children := cs\<rparr> else n) fd"

text \<open>The loop over \<^verbatim>\<open>folder_dict.values()\<close> that fills \<^verbatim>\<open>root_folders\<close> and the children.\<close>

fun attach :: "hier_node list \<Rightarrow> hierarchy \<Rightarrow> hierarchy" where
  "attach [] h = h"
| "attach (folder # rest) h =
     attach rest
       (case f_parent_id folder of
          None \<Rightarrow> h\<lparr>root_folders := root_folders h @ [f_id folder]\<rparr>
        | Some p \<Rightarrow>
            if p \<in> set (map f_id (folder_dict h))
            then h\<lparr>folder_dict := set_children (folder_dict h) p
                     (children_at (folder_dict h) p @ [f_id folder])\<rparr>
            else h)"

text \<open>
  \<^verbatim>\<open>sort_folders_recursive\<close> sorts a list in place, \<^verbatim>\<open>root_folders\<close> or the children of
  a folder, and then visits its members. The key is the stripped name in lower case;
  \<^verbatim>\<open>list.sort\<close> is stable. The first argument is the recursion depth still available.
\<close>

datatype list_ref = Root_list | Children_of string

fun get_list :: "hierarchy \<Rightarrow> list_ref \<Rightarrow> string list" where
  "get_list h Root_list = root_folders h"
| "get_list h (Children_of i) = children_at (folder_dict h) i"

fun set_list :: "hierarchy \<Rightarrow> list_ref \<Rightarrow> string list \<Rightarrow> hierarchy" where
  "set_list h Root_list xs = h\<lparr>root_folders := xs\<rparr>"
| "set_list h (Children_of i) xs = h\<lparr>folder_dict := set_children (folder_dict h) i xs\<rparr>"

definition sort_name :: "hier_node list \<Rightarrow> string \<Rightarrow> string" where
  "sort_name fd i =
     (case find (\<lambda>n. f_id n = i) fd of None \<Rightarrow> []
      | Some n \<Rightarrow> map ascii_lower (strip_emoji_for_sort (f_name n)))"

function sort_folders_recursive :: "nat \<Rightarrow> hierarchy \<Rightarrow> list_ref \<Rightarrow> py_error + hierarchy"
  and sort_children :: "nat \<Rightarrow> hierarchy \<Rightarrow> string list \<Rightarrow> py_error + hierarchy" where
  "sort_folders_recursive 0 h r = Inl RecursionError"
| "sort_folders_recursive (Suc n) h r =
     (let h1 = set_list h r (sort_key (sort_name (folder_dict h)) (get_list h r))
      in sort_children n h1 (get_list h1 r))"
| "sort_children n h [] = Inr h"
| "sort_children n h (i # rest) =
     (if children_at (folder_dict h) i \<noteq> [] then
        (case sort_folders_recursive n h (Children_of i) of
           Inl e \<Rightarrow> Inl e
         | Inr h' \<Rightarrow> sort_children n h' rest)
      else sort_children n h rest)"
  by pat_completeness auto
termination
  by (relation "measures [\<lambda>x. case x of Inl (n, h, r) \<Rightarrow> n | Inr (n, h, xs) \<Rightarrow> n,
                          \<lambda>x. case x of Inl (n, h, r) \<Rightarrow> 0 | Inr (n, h, xs) \<Rightarrow> Suc (length xs)]")
     auto

definition get_folder_hierarchy :: "nat \<Rightarrow> store \<Rightarrow> py_error + hierarchy" where
  "get_folder_hierarchy limit db =
     (let rows = hierarchy_rows db
      in sort_folders_recursive limit (attach rows \<lparr>folder_dict = rows, root_folders = []\<rparr>)
           Root_list)"

text \<open>
  What the returned tree holds: the ids in \<^verbatim>\<open>root_folders\<close>, and below a folder the ids
  in its \<^verbatim>\<open>children\<close>.
\<close>

definition child_edges :: "hierarchy \<Rightarrow> (string \<times> string) set" where
  "child_edges h = {(f_id n, c) | n c. n \<in> set (folder_dict h) \<and> c \<in> set (children n)}"

definition in_tree :: "hierarchy \<Rightarrow> string set" where
  "in_tree h = (child_edges h)\<^sup>* `` set (root_folders h)"

definition orphan_store :: store where
  "orphan_store = empty_store\<lparr>folders :=
     [\<lparr>f_id = ''r'', f_name = ''Root'', f_parent_id = None, f_created_at = 0\<rparr>,
      \<lparr>f_id = ''k'', f_name = ''Kid'', f_parent_id = Some ''r'', f_created_at = 0\<rparr>,
      \<lparr>f_id = ''o'', f_name = ''Orphan'', f_parent_id = Some ''gone'', f_created_at = 0\<rparr>,
      \<lparr>f_id = ''g'', f_name = ''Grandchild'', f_parent_id = Some ''o'', f_created_at = 0\<rparr>]\<rparr>"

text \<open>
  The folders whose chain of parents ends at a folder without parent, and what holds of
  \<^verbatim>\<open>folder_dict\<close> and \<^verbatim>\<open>root_folders\<close> from the first loop on: a root list entry is a
  stored folder without parent, and a member of a children list is a stored folder whose
  parent is the owner of the list.
\<close>

inductive rooted :: "folder list \<Rightarrow> string \<Rightarrow> bool" for fs where
  root: "f \<in> set fs \<Longrightarrow> f_parent_id f = None \<Longrightarrow> rooted fs (f_id f)"
| child: "f \<in> set fs \<Longrightarrow> f_parent_id f = Some p \<Longrightarrow> rooted fs p \<Longrightarrow> rooted fs (f_id f)"

definition tree_inv :: "folder list \<Rightarrow> hierarchy \<Rightarrow> bool" where
  "tree_inv fs h \<longleftrightarrow>
     (\<forall>i \<in> set (root_folders h). \<exists>f \<in> set fs. f_id f = i \<and> f_parent_id f = None) \<and>
     (\<forall>n \<in> set (folder_dict h). \<forall>c \<in> set (children n).
        \<exists>f \<in> set fs. f_id f = c \<and> f_parent_id f = Some (f_id n)) \<and>
     map f_id (folder_dict h) = map f_id fs"

text \<open>The parent relation below folders whose chain of parents ends at a root.\<close>

definition rooted_rel :: "folder list \<Rightarrow> (string \<times> string) set" where
  "rooted_rel fs = {(c, p). (c, p) \<in> parent_rel fs \<and> rooted fs p}"

text \<open>A folder with a subfolder and a bookmark filed in it.\<close>

definition filed_store :: store where
  "filed_store = two_level_store\<lparr>bookmarks :=
     [sample_bookmark ''1'' ''Python'' (Some ''p'') 0 1]\<rparr>"

section \<open>Firefox exchange format (app/services/firefox\_service.py)\<close>

text \<open>
  A node of the bookmark tree: a JSON object with the keys that the two functions read or
  write. A key that is absent is \<open>None\<close>; an absent \<^verbatim>\<open>children\<close> key is the empty list,
  which is what \<^verbatim>\<open>node.get('children', [])\<close> makes of it. The value of \<^verbatim>\<open>tags\<close> is a
  comma-separated string or a list of strings.
\<close>

datatype anno = Anno (anno_name: "string option") (anno_value: "string option")

datatype tags_value = Tags_str string | Tags_list "string list"

datatype node = Node (n_type: "string option") (n_guid: "string option")
  (n_title: "string option") (n_uri: "string option") (n_annos: "anno list option")
  (n_tags: "tags_value option") (n_children: "node list")

definition container_type :: string where
  "container_type = ''text/x-moz-place-container''"

definition place_type :: string where
  "place_type = ''text/x-moz-place''"

definition description_anno :: string where
  "description_anno = ''bookmarkProperties/description''"

subsection \<open>Export\<close>

text \<open>
  While the tree is built, the folder nodes are dictionaries that \<^verbatim>\<open>folder_map\<close>, the
  \<^verbatim>\<open>children\<close> lists and \<^verbatim>\<open>root_children\<close> share: a list holds a reference to a folder
  node, by its id (the primary key), or a finished bookmark node.
\<close>

datatype child_ref = Folder_ref string | Bookmark_leaf node

record folder_node =
  fn_guid :: string
  fn_title :: string
  fn_children :: "child_ref list"

record export_state =
  folder_map :: "string \<rightharpoonup> folder_node"
  root_children :: "child_ref list"
  unorganized_bookmarks :: "child_ref list"

definition append_child :: "(string \<rightharpoonup> folder_node) \<Rightarrow> string \<Rightarrow> child_ref \<Rightarrow> (string \<rightharpoonup> folder_node)" where
  "append_child fm i c =
     (case fm i of None \<Rightarrow> fm | Some n \<Rightarrow> fm(i \<mapsto> n\<lparr>fn_children := fn_children n @ [c]\<rparr>))"

text \<open>One round of the loop \<^verbatim>\<open>for folder in folders\<close>.\<close>

definition export_folder :: "folder \<Rightarrow> export_state \<Rightarrow> export_state" where
  "export_folder folder st =
     (let fm = (folder_map st)(f_id folder \<mapsto>
                 \<lparr>fn_guid = f_id folder, fn_title = f_name folder, fn_children = []\<rparr>)
      in if truthy (f_parent_id folder) then
           (if the (f_parent_id folder) \<in> dom fm
            then st\<lparr>folder_map := append_child fm (the (f_parent_id folder)) (Folder_ref (f_id folder))\<rparr>
            else st\<lparr>folder_map := fm\<rparr>)
         else st\<lparr>folder_map := fm, root_children := root_children st @ [Folder_ref (f_id folder)]\<rparr>)"

fun export_folders :: "folder list \<Rightarrow> export_state \<Rightarrow> export_state" where
  "export_folders [] st = st"
| "export_folders (folder # rest) st = export_folders rest (export_folder folder st)"

text \<open>One round of the loop \<^verbatim>\<open>for bookmark in bookmarks\<close>.\<close>

definition bookmark_node :: "bookmark_row \<Rightarrow> node" where
  "bookmark_node bookmark =
     Node (Some place_type) (Some (b_id bookmark)) (Some (b_title bookmark))
       (Some (b_url bookmark))
       (if truthy (b_description bookmark)
        then Some [Anno (Some description_anno) (b_description bookmark)] else None)
       (if truthy (r_tag_names bookmark) then Some (Tags_str (the (r_tag_names bookmark))) else None)
       []"

definition export_bookmark :: "bookmark_row \<Rightarrow> export_state \<Rightarrow> export_state" where
  "export_bookmark bookmark st =
     (if truthy (b_folder_id bookmark) \<and> the (b_folder_id bookmark) \<in> dom (folder_map st)
      then st\<lparr>folder_map := append_child (folder_map st) (the (b_folder_id bookmark))
                 (Bookmark_leaf (bookmark_node bookmark))\<rparr>
      else st\<lparr>unorganized_bookmarks :=
                 unorganized_bookmarks st @ [Bookmark_leaf (bookmark_node bookmark)]\<rparr>)"

fun export_bookmarks :: "bookmark_row list \<Rightarrow> export_state \<Rightarrow> export_state" where
  "export_bookmarks [] st = st"
| "export_bookmarks (bookmark # rest) st = export_bookmarks rest (export_bookmark bookmark st)"

text \<open>
  \<^verbatim>\<open>SELECT * FROM folders ORDER BY name\<close> (BINARY collation), and the bookmarks query:
  the joins and the grouping of \<^verbatim>\<open>get_all_bookmarks\<close> without a \<^verbatim>\<open>WHERE\<close> clause,
  \<^verbatim>\<open>ORDER BY b.created_at DESC\<close>.
\<close>

definition folders_query :: "store \<Rightarrow> folder list" where
  "folders_query db = sort_key f_name (folders db)"

definition bookmarks_query :: "store \<Rightarrow> bookmark_row list" where
  "bookmarks_query db =
     order_by (\<lambda>x y. b_created_at y \<le> b_created_at x)
       (map select_group (group_by_id (from_joined db)))"

text \<open>The state of \<^verbatim>\<open>export_to_firefox_json\<close> after its two loops.\<close>

definition export_loops :: "store \<Rightarrow> export_state" where
  "export_loops db =
     export_bookmarks (bookmarks_query db)
       (export_folders (folders_query db)
          \<lparr>folder_map = Map.empty, root_children = [], unorganized_bookmarks = []\<rparr>)"

text \<open>
  The dictionary that a reference stands for, with the dictionaries below it, as a tree,
  down to a given depth of folders (\<open>None\<close> beyond it).
\<close>

fun all_some :: "'a option list \<Rightarrow> 'a list option" where
  "all_some [] = Some []"
| "all_some (None # xs) = None"
| "all_some (Some x # xs) = map_option ((#) x) (all_some xs)"

fun tree_of :: "nat \<Rightarrow> (string \<rightharpoonup> folder_node) \<Rightarrow> child_ref \<Rightarrow> node option" where
  "tree_of n fm (Bookmark_leaf b) = Some b"
| "tree_of 0 fm (Folder_ref i) = None"
| "tree_of (Suc n) fm (Folder_ref i) =
     (case fm i of None \<Rightarrow> None
      | Some f \<Rightarrow>
          map_option (Node (Some container_type) (Some (fn_guid f)) (Some (fn_title f))
                        None None None)
            (all_some (map (tree_of n fm) (fn_children f))))"

text \<open>\<^verbatim>\<open>export_to_firefox_json\<close>: the root container around the toolbar container.\<close>

definition export_to_firefox_json :: "nat \<Rightarrow> store \<Rightarrow> node option" where
  "export_to_firefox_json depth db =
     (let st = export_loops db in
      case all_some (map (tree_of depth (folder_map st))
                       (root_children st @ unorganized_bookmarks st)) of
        None \<Rightarrow> None
      | Some toolbar_children \<Rightarrow>
          Some (Node (Some container_type) (Some ''root________'') (Some '''') None None None
            [Node (Some container_type) (Some ''toolbar_____'') (Some ''Bookmarks Toolbar'')
               None None None toolbar_children]))"

text \<open>
  \<open>has_child st p c\<close>: the node of folder \<open>p\<close> holds a reference to the node of folder
  \<open>c\<close>. \<open>export_inv seen st\<close> relates the state of the export to the folder rows read
  so far.
\<close>

definition has_child :: "export_state \<Rightarrow> string \<Rightarrow> string \<Rightarrow> bool" where
  "has_child st p c \<longleftrightarrow> (\<exists>n. folder_map st p = Some n \<and> Folder_ref c \<in> set (fn_children n))"

definition export_inv :: "folder list \<Rightarrow> export_state \<Rightarrow> bool" where
  "export_inv seen st \<longleftrightarrow>
     (\<forall>i. Folder_ref i \<in> set (root_children st) \<longrightarrow>
        (\<exists>r \<in> set seen. f_id r = i \<and> \<not> truthy (f_parent_id r))) \<and>
     (\<forall>q i. has_child st q i \<longrightarrow> (\<exists>r \<in> set seen. f_id r = i \<and> f_parent_id r = Some q)) \<and>
     (\<forall>i. Folder_ref i \<notin> set (unorganized_bookmarks st)) \<and>
     dom (folder_map st) \<subseteq> set (map f_id seen)"

text \<open>A folder with a subfolder whose name sorts after its own, and an orphan folder.\<close>

definition nested_store :: store where
  "nested_store = empty_store\<lparr>folders :=
     [\<lparr>f_id = ''a'', f_name = ''Projects'', f_parent_id = None, f_created_at = 0\<rparr>,
      \<lparr>f_id = ''b'', f_name = ''Python'', f_parent_id = Some ''a'', f_created_at = 0\<rparr>,
      \<lparr>f_id = ''o'', f_name = ''Orphan'', f_parent_id = Some ''gone'', f_created_at = 0\<rparr>]\<rparr>"

subsection \<open>Import\<close>

text \<open>
  \<^verbatim>\<open>create_tag\<close>: the column \<^verbatim>\<open>name\<close> is \<^verbatim>\<open>UNIQUE\<close>, so the INSERT of a name that is
  stored already raises \<^verbatim>\<open>sqlite3.IntegrityError\<close>.
\<close>

definition create_tag :: "string \<Rightarrow> string \<Rightarrow> store \<Rightarrow> py_error + store" where
  "create_tag new_id name db =
     (if name \<in> set (map t_name (tags db)) then Inl IntegrityError
      else Inr (db\<lparr>tags := tags db @
             [\<lparr>t_id = new_id, t_name = name, t_created_at = current_timestamp db\<rparr>]\<rparr>))"

text \<open>
  \<^verbatim>\<open>create_bookmark\<close>: the INSERT of the bookmark (\<^verbatim>\<open>pinned\<close> takes its default 0), then
  one INSERT into \<^verbatim>\<open>bookmark_tags\<close> for each tag id; the pair (bookmark id, tag id) is the
  primary key, so a tag id that occurs twice raises \<^verbatim>\<open>sqlite3.IntegrityError\<close>.
\<close>

fun insert_bookmark_tags :: "string \<Rightarrow> string list \<Rightarrow> (string \<times> string) list \<Rightarrow>
    py_error + (string \<times> string) list" where
  "insert_bookmark_tags bookmark_id [] bts = Inr bts"
| "insert_bookmark_tags bookmark_id (tag_id # rest) bts =
     (if (bookmark_id, tag_id) \<in> set bts then Inl IntegrityError
      else insert_bookmark_tags bookmark_id rest (bts @ [(bookmark_id, tag_id)]))"

definition create_bookmark ::
  "string \<Rightarrow> string \<Rightarrow> string \<Rightarrow> string \<Rightarrow> string option \<Rightarrow> string list \<Rightarrow> string option \<Rightarrow>
   store \<Rightarrow> py_error + store" where
  "create_bookmark new_id url title description folder_id tag_ids favicon db =
     (case insert_bookmark_tags new_id tag_ids (bookmark_tags db) of
        Inl e \<Rightarrow> Inl e
      | Inr bts \<Rightarrow>
          Inr (db\<lparr>bookmarks := bookmarks db @
                 [\<lparr>b_id = new_id, b_url = url, b_title = title, b_description = Some description,
                   b_favicon = favicon,
                   b_folder_id = (if truthy folder_id then folder_id else None),
                   b_pinned = 0, b_created_at = current_timestamp db\<rparr>],
               bookmark_tags := bts\<rparr>))"

text \<open>
  What the import takes from outside: the identifiers that successive calls of
  \<^verbatim>\<open>uuid.uuid4()\<close> return, and \<^verbatim>\<open>download_favicon\<close>.
\<close>

record environment =
  uuid4 :: "nat \<Rightarrow> string"
  download_favicon :: "string \<Rightarrow> string option"

record import_state =
  im_db :: store
  im_bookmarks :: nat
  im_folders :: nat
  im_tags :: nat
  folder_mapping :: "string option \<rightharpoonup> string"
  uuid_calls :: nat

text \<open>Python's \<^verbatim>\<open>str.strip()\<close>, for the ASCII white space characters.\<close>

definition is_space :: "char \<Rightarrow> bool" where
  "is_space c \<longleftrightarrow> c \<in> set [CHR '' '', CHR 0x09, CHR 0x0A, CHR 0x0B, CHR 0x0C, CHR 0x0D,
     CHR 0x1C, CHR 0x1D, CHR 0x1E, CHR 0x1F]"

definition strip :: "string \<Rightarrow> string" where
  "strip s = rev (dropWhile is_space (rev (dropWhile is_space s)))"

text \<open>The loop over \<^verbatim>\<open>tag_names\<close>: find the tag by name or create it.\<close>

fun import_tags :: "environment \<Rightarrow> string list \<Rightarrow> string list \<Rightarrow> import_state \<Rightarrow>
    py_error + (string list \<times> import_state)" where
  "import_tags env [] tag_ids st = Inr (tag_ids, st)"
| "import_tags env (tag_name # rest) tag_ids st =
     (let name = strip tag_name in
      if name \<noteq> [] then
        (case find (\<lambda>t. t_name t = name) (tags (im_db st)) of
           Some t \<Rightarrow> import_tags env rest (tag_ids @ [t_id t]) st
         | None \<Rightarrow>
             (case create_tag (uuid4 env (uuid_calls st)) name (im_db st) of
                Inl e \<Rightarrow> Inl e
              | Inr db \<Rightarrow>
                  import_tags env rest (tag_ids @ [uuid4 env (uuid_calls st)])
                    (st\<lparr>im_db := db, im_tags := im_tags st + 1,
                        uuid_calls := uuid_calls st + 1\<rparr>)))
      else import_tags env rest tag_ids st)"

text \<open>The first annotation named \<^verbatim>\<open>bookmarkProperties/description\<close> gives the description.\<close>

fun description_of :: "anno list \<Rightarrow> string" where
  "description_of [] = []"
| "description_of (a # rest) =
     (if anno_name a = Some description_anno
      then (case anno_value a of None \<Rightarrow> [] | Some v \<Rightarrow> v)
      else description_of rest)"

definition special_guids :: "string list" where
  "special_guids = [''root________'', ''menu________'', ''unfiled_____'', ''mobile______'',
     ''toolbar_____'']"

text \<open>The branch of \<^verbatim>\<open>process_container\<close> for a node of type \<^verbatim>\<open>text/x-moz-place\<close>.\<close>

definition import_bookmark :: "environment \<Rightarrow> node \<Rightarrow> string option \<Rightarrow> import_state \<Rightarrow>
    py_error + import_state" where
  "import_bookmark env node parent_id st =
     (let url = n_uri node;
          title = (case n_title node of None \<Rightarrow> url | Some t \<Rightarrow> Some t)
      in if \<not> truthy url then Inr st
         else
           (let description = description_of (case n_annos node of None \<Rightarrow> [] | Some a \<Rightarrow> a);
                tag_names = (case n_tags node of None \<Rightarrow> []
                             | Some (Tags_str s) \<Rightarrow> if s = [] then [] else split_commas s
                             | Some (Tags_list l) \<Rightarrow> l)
            in case import_tags env tag_names [] st of
                 Inl e \<Rightarrow> Inl e
               | Inr (tag_ids, st1) \<Rightarrow>
                   (case create_bookmark (uuid4 env (uuid_calls st1)) (the url) (the title)
                           description parent_id tag_ids (download_favicon env (the url))
                           (im_db st1) of
                      Inl e \<Rightarrow> Inl e
                    | Inr db \<Rightarrow>
                        Inr (st1\<lparr>im_db := db, im_bookmarks := im_bookmarks st1 + 1,
                                 uuid_calls := uuid_calls st1 + 1\<rparr>))))"

text \<open>
  \<^verbatim>\<open>process_container\<close>, with the loop over the children of a node as a function of
  its own.
\<close>

fun process_container :: "environment \<Rightarrow> node \<Rightarrow> string option \<Rightarrow> import_state \<Rightarrow>
    py_error + import_state"
  and process_children :: "environment \<Rightarrow> node list \<Rightarrow> string option \<Rightarrow> import_state \<Rightarrow>
    py_error + import_state" where
  "process_container env (Node ty guid title uri annos tgs kids) parent_id st =
     (if ty = Some container_type then
        (if (case guid of None \<Rightarrow> [] | Some g \<Rightarrow> g) \<in> set special_guids
         then process_children env kids parent_id st
         else
           (let folder_title = (case title of None \<Rightarrow> ''Untitled Folder'' | Some t \<Rightarrow> t)
            in if folder_title \<noteq> [] then
                 (let folder_id = uuid4 env (uuid_calls st);
                      st1 = st\<lparr>im_db := create_folder folder_id folder_title parent_id (im_db st),
                               folder_mapping := (folder_mapping st)(guid \<mapsto> folder_id),
                               im_folders := im_folders st + 1,
                               uuid_calls := uuid_calls st + 1\<rparr>
                  in process_children env kids (Some folder_id) st1)
               else Inr st))
      else if ty = Some place_type then
        import_bookmark env (Node ty guid title uri annos tgs kids) parent_id st
      else Inr st)"
| "process_children env [] parent_id st = Inr st"
| "process_children env (child # rest) parent_id st =
     (case process_container env child parent_id st of
        Inl e \<Rightarrow> Inl e
      | Inr st1 \<Rightarrow> process_children env rest parent_id st1)"

text \<open>
  \<^verbatim>\<open>import_from_firefox_json\<close> on a document whose top level is an object; the counters
  of the returned \<^verbatim>\<open>stats\<close> are \<open>im_bookmarks\<close>, \<open>im_folders\<close> and \<open>im_tags\<close>.
\<close>

definition import_from_firefox_json :: "environment \<Rightarrow> node \<Rightarrow> store \<Rightarrow> py_error + import_state" where
  "import_from_firefox_json env json_data db =
     process_container env json_data None
       \<lparr>im_db = db, im_bookmarks = 0, im_folders = 0, im_tags = 0,
        folder_mapping = Map.empty, uuid_calls = 0\<rparr>"

text \<open>An environment for examples: the identifiers u, uu, uuu and so on, and no favicons.\<close>

definition example_env :: environment where
  "example_env = \<lparr>uuid4 = (\<lambda>k. replicate (Suc k) CHR ''u''), download_favicon = (\<lambda>url. None)\<rparr>"

definition toolbar_doc :: node where
  "toolbar_doc =
     Node (Some container_type) (Some ''toolbar_____'') None None None None
       [Node (Some place_type) None (Some ''X'') (Some ''https://x.com'') None None []]"

definition untitled_doc :: node where
  "untitled_doc =
     Node (Some container_type) (Some ''menu________'') None None None None
       [Node (Some container_type) (Some ''abc'') None None None None
          [Node (Some place_type) None (Some ''X'') (Some ''https://x.com'') None None []]]"

text \<open>
  The guid and the folder title that \<^verbatim>\<open>process_container\<close> reads off a container node:
  \<^verbatim>\<open>node.get('guid', '')\<close> and \<^verbatim>\<open>node.get('title', 'Untitled Folder')\<close>.
\<close>

definition guid_of :: "node \<Rightarrow> string" where
  "guid_of node = (case n_guid node of None \<Rightarrow> [] | Some g \<Rightarrow> g)"

definition folder_title_of :: "node \<Rightarrow> string" where
  "folder_title_of node = (case n_title node of None \<Rightarrow> ''Untitled Folder'' | Some t \<Rightarrow> t)"

definition folder_doc :: node where
  "folder_doc =
     Node (Some container_type) (Some ''folder1'') (Some ''Imported Folder'') None None None
       [Node (Some place_type) (Some ''bookmark1'') (Some ''Test Bookmark'')
          (Some ''https://test.com'')
          (Some [Anno (Some description_anno) (Some ''Test description'')])
          (Some (Tags_str ''tag1,tag2'')) []]"

definition initial_import_state :: import_state where
  "initial_import_state =
     \<lparr>im_db = empty_store, im_bookmarks = 0, im_folders = 0, im_tags = 0,
      folder_mapping = Map.empty, uuid_calls = 0\<rparr>"

text \<open>
  The folder Work with the subfolder Projects, and one bookmark filed in Projects.
\<close>

definition work_store :: store where
  "work_store = two_level_store\<lparr>bookmarks :=
     [sample_bookmark ''1'' ''Python'' (Some ''c'') 0 1]\<rparr>"

section \<open>Descendant resolution\<close>

lemma extend_results_Inr:
  "extend_results ids rs = Inr out \<Longrightarrow> \<exists>xss. rs = map Inr xss \<and> out = ids @ concat xss"
proof (induction ids rs rule: extend_results.induct)
  case (1 ids)
  then show ?case by simp
next
  case (2 ids e rs)
  then show ?case by simp
next
  case (3 ids xs rs)
  then obtain xss where "rs = map Inr xss" "out = (ids @ xs) @ concat xss" by auto
  then have "Inr xs # rs = map Inr (xs # xss) \<and> out = ids @ concat (xs # xss)" by simp
  then show ?case by (intro exI [of _ "xs # xss"])
qed

lemma all_Inr_map:
  "\<forall>c \<in> set cs. \<exists>ds. f c = Inr ds \<Longrightarrow> \<exists>xss. map f cs = map Inr xss"
proof (induction cs)
  case Nil
  then show ?case by simp
next
  case (Cons c cs)
  then obtain ds xss where "f c = Inr ds" "map f cs = map Inr xss" by auto
  then have "map f (c # cs) = map Inr (ds # xss)" by simp
  then show ?case by (intro exI [of _ "ds # xss"])
qed

lemma extend_results_map_Inr: "extend_results ids (map Inr xss) = Inr (ids @ concat xss)"
  by (induction xss arbitrary: ids) simp_all

lemma get_descendants_Suc_Inr:
  assumes "get_descendants (Suc n) fs x = Inr ds"
  shows "\<exists>xss. map (get_descendants n fs) (children_of fs x) = map Inr xss \<and> ds = x # concat xss"
  using extend_results_Inr [of "[x]" "map (get_descendants n fs) (children_of fs x)" ds] assms
  by simp

lemma children_of_iff: "c \<in> set (children_of fs x) \<longleftrightarrow> (c, x) \<in> parent_rel fs"
  by (auto simp: children_of_def parent_rel_def)

lemma get_descendants_self: "get_descendants n fs x = Inr ds \<Longrightarrow> x \<in> set ds"
proof (cases n)
  case 0
  then show "get_descendants n fs x = Inr ds \<Longrightarrow> x \<in> set ds" by simp
next
  case (Suc m)
  assume "get_descendants n fs x = Inr ds"
  with Suc have "get_descendants (Suc m) fs x = Inr ds" by simp
  from get_descendants_Suc_Inr [OF this] show "x \<in> set ds" by auto
qed

lemma get_descendants_sound:
  "get_descendants n fs x = Inr ds \<Longrightarrow> y \<in> set ds \<Longrightarrow> (y, x) \<in> (parent_rel fs)\<^sup>*"
proof (induction n arbitrary: x ds)
  case 0
  then show ?case by simp
next
  case (Suc n)
  from get_descendants_Suc_Inr [OF Suc.prems(1)] obtain xss where
    m: "map (get_descendants n fs) (children_of fs x) = map Inr xss" and d: "ds = x # concat xss"
    by blast
  show ?case
  proof (cases "y = x")
    case True
    then show ?thesis by simp
  next
    case False
    with d Suc.prems(2) obtain xs where xs: "xs \<in> set xss" "y \<in> set xs" by auto
    then obtain i where i: "i < length xss" "xss ! i = xs" by (auto simp: in_set_conv_nth)
    from m have len: "length (children_of fs x) = length xss"
      by (metis length_map)
    let ?c = "children_of fs x ! i"
    from m i len have "get_descendants n fs ?c = Inr xs"
      by (metis nth_map)
    with Suc.IH xs have "(y, ?c) \<in> (parent_rel fs)\<^sup>*" by blast
    moreover have "(?c, x) \<in> parent_rel fs"
      using i len children_of_iff [of ?c fs x] by simp
    ultimately show ?thesis by (rule rtrancl_into_rtrancl)
  qed
qed

lemma get_descendants_complete:
  "get_descendants n fs x = Inr ds \<Longrightarrow> (y, x) \<in> (parent_rel fs)\<^sup>* \<Longrightarrow> y \<in> set ds"
proof (induction n arbitrary: x ds)
  case 0
  then show ?case by simp
next
  case (Suc n)
  from get_descendants_Suc_Inr [OF Suc.prems(1)] obtain xss where
    m: "map (get_descendants n fs) (children_of fs x) = map Inr xss" and d: "ds = x # concat xss"
    by blast
  from Suc.prems(2) show ?case
  proof (cases rule: rtranclE)
    case base
    with d show ?thesis by simp
  next
    case (step c)
    then have "c \<in> set (children_of fs x)" by (simp add: children_of_iff)
    then obtain i where i: "i < length (children_of fs x)" "children_of fs x ! i = c"
      by (auto simp: in_set_conv_nth)
    from m have len: "length (children_of fs x) = length xss"
      by (metis length_map)
    from m i len have "get_descendants n fs c = Inr (xss ! i)"
      by (metis nth_map)
    with Suc.IH step(1) have "y \<in> set (xss ! i)" by blast
    with i len d show ?thesis by auto
  qed
qed

lemma get_descendants_set:
  "get_descendants n fs x = Inr ds \<Longrightarrow> set ds = {y. (y, x) \<in> (parent_rel fs)\<^sup>*}"
  using get_descendants_sound get_descendants_complete by blast

lemma parent_rel_finite: "finite (parent_rel fs)"
proof -
  have "parent_rel fs \<subseteq> (\<lambda>f. (f_id f, the (f_parent_id f))) ` set fs"
    by (auto simp: parent_rel_def image_iff intro!: bexI)
  then show ?thesis by (rule finite_subset) simp
qed

lemma strict_descendants_subset: "strict_descendants fs x \<subseteq> set (map f_id fs)"
proof
  fix y assume "y \<in> strict_descendants fs x"
  then have "(y, x) \<in> (parent_rel fs)\<^sup>+" by (simp add: strict_descendants_def)
  then obtain z where "(y, z) \<in> parent_rel fs" by (meson tranclD)
  then show "y \<in> set (map f_id fs)" by (auto simp: parent_rel_def)
qed

lemma strict_descendants_card: "card (strict_descendants fs x) \<le> length fs"
proof -
  have "card (strict_descendants fs x) \<le> card (set (map f_id fs))"
    by (rule card_mono) (simp_all add: strict_descendants_subset del: set_map)
  also have "\<dots> \<le> length (map f_id fs)" by (rule card_length)
  finally show ?thesis by simp
qed

lemma strict_descendants_child:
  assumes "acyclic (parent_rel fs)" and "(c, x) \<in> parent_rel fs"
  shows "card (strict_descendants fs c) < card (strict_descendants fs x)"
proof (rule psubset_card_mono)
  show "finite (strict_descendants fs x)"
    by (rule finite_subset [OF strict_descendants_subset]) simp
  have sub: "strict_descendants fs c \<subseteq> strict_descendants fs x"
    using assms(2) by (auto simp: strict_descendants_def intro: trancl_into_trancl)
  have "c \<in> strict_descendants fs x" using assms(2) by (auto simp: strict_descendants_def)
  moreover have "c \<notin> strict_descendants fs c"
    using assms(1) by (auto simp: strict_descendants_def acyclic_def)
  ultimately show "strict_descendants fs c \<subset> strict_descendants fs x" using sub by blast
qed

lemma get_descendants_terminates:
  assumes "acyclic (parent_rel fs)"
  shows "card (strict_descendants fs x) < n \<Longrightarrow> \<exists>ds. get_descendants n fs x = Inr ds"
proof (induction n arbitrary: x)
  case 0
  then show ?case by simp
next
  case (Suc n)
  have "\<forall>c \<in> set (children_of fs x). \<exists>ds. get_descendants n fs c = Inr ds"
  proof
    fix c assume "c \<in> set (children_of fs x)"
    then have "(c, x) \<in> parent_rel fs" by (simp add: children_of_iff)
    from strict_descendants_child [OF assms this] Suc.prems
    have "card (strict_descendants fs c) < n" by simp
    then show "\<exists>ds. get_descendants n fs c = Inr ds" by (rule Suc.IH)
  qed
  then have "\<exists>xss. map (get_descendants n fs) (children_of fs x) = map Inr xss"
    by (rule all_Inr_map)
  then obtain xss where "map (get_descendants n fs) (children_of fs x) = map Inr xss" ..
  then show ?case by (simp add: extend_results_map_Inr)
qed

lemma acyclic_empty_rel: "acyclic {}"
  by (simp add: acyclic_def)

lemma parent_rel_Nil: "parent_rel [] = {}"
  by (simp add: parent_rel_def)

lemma parent_rel_Cons:
  "parent_rel (f # fs) =
     (case f_parent_id f of None \<Rightarrow> parent_rel fs | Some p \<Rightarrow> insert (f_id f, p) (parent_rel fs))"
  by (auto simp: parent_rel_def split: option.splits)

text \<open>
  C9. In a store whose parent relation is acyclic, and with a recursion depth above the
  number of folders, \<^verbatim>\<open>get_folder_with_descendants(F)\<close> returns a list that contains
  \<open>F\<close> itself, and for every direct child \<open>C\<close> of \<open>F\<close> the call for \<open>C\<close> returns
  a list whose ids are all among those returned for \<open>F\<close>.
\<close>

theorem descendants_contain_self_and_children:
  assumes "acyclic (parent_rel (folders db))" and "length (folders db) < limit"
  shows "\<exists>ds. get_folder_with_descendants limit db F = Inr ds \<and> F \<in> set ds \<and>
           (\<forall>C \<in> set (children_of (folders db) F).
              \<exists>dc. get_folder_with_descendants limit db C = Inr dc \<and> set dc \<subseteq> set ds)"
proof -
  let ?fs = "folders db"
  have tm: "\<exists>ds. get_descendants limit ?fs x = Inr ds" for x
    using get_descendants_terminates [OF assms(1), of x limit]
      strict_descendants_card [of ?fs x] assms(2) by simp
  from tm obtain ds where ds: "get_descendants limit ?fs F = Inr ds" by blast
  have "\<exists>dc. get_descendants limit ?fs C = Inr dc \<and> set dc \<subseteq> set ds"
    if "C \<in> set (children_of ?fs F)" for C
  proof -
    from tm obtain dc where dc: "get_descendants limit ?fs C = Inr dc" by blast
    have "(C, F) \<in> parent_rel ?fs" using that by (simp add: children_of_iff)
    then have "set dc \<subseteq> set ds"
      unfolding get_descendants_set [OF dc] get_descendants_set [OF ds]
      by (auto intro: rtrancl_into_rtrancl)
    with dc show ?thesis by blast
  qed
  with ds get_descendants_self [OF ds] show ?thesis
    by (auto simp: get_folder_with_descendants_def)
qed

theorem descendants_contain_self_and_children_witness:
  "acyclic (parent_rel (folders two_level_store)) \<and> length (folders two_level_store) < 3 \<and>
   get_folder_with_descendants 3 two_level_store ''p'' = Inr [''p'', ''c''] \<and>
   get_folder_with_descendants 3 two_level_store ''c'' = Inr [''c''] \<and>
   (\<exists>ds. get_folder_with_descendants 3 two_level_store ''p'' = Inr ds \<and> ''p'' \<in> set ds \<and>
      (\<forall>C \<in> set (children_of (folders two_level_store) ''p'').
         \<exists>dc. get_folder_with_descendants 3 two_level_store C = Inr dc \<and> set dc \<subseteq> set ds))"
proof -
  have a: "acyclic (parent_rel (folders two_level_store))"
    by (simp add: two_level_store_def empty_store_def parent_rel_Cons parent_rel_Nil acyclic_empty_rel)
  have l: "length (folders two_level_store) < 3"
    by (simp add: two_level_store_def empty_store_def)
  have e1: "get_folder_with_descendants 3 two_level_store ''p'' = Inr [''p'', ''c'']"
    by (simp add: get_folder_with_descendants_def two_level_store_def empty_store_def
        children_of_def numeral_3_eq_3)
  have e2: "get_folder_with_descendants 3 two_level_store ''c'' = Inr [''c'']"
    by (simp add: get_folder_with_descendants_def two_level_store_def empty_store_def
        children_of_def numeral_3_eq_3)
  from a l e1 e2 descendants_contain_self_and_children [OF a l, of "''p''"] show ?thesis
    by blast
qed

section \<open>Cyclic moves\<close>









lemma parent_rel_source: "(x, z) \<in> parent_rel fs \<Longrightarrow> x \<in> set (map f_id fs)"
  by (auto simp: parent_rel_def)








section \<open>Counting, ordering and paging of bookmark queries\<close>

lemma ceiling_div_pos:
  assumes "0 < (b::int)"
  shows "(a + b - 1) div b = \<lceil>real_of_int a / real_of_int b\<rceil>"
proof -
  let ?m = "a + b - 1"
  let ?z = "?m div b"
  have m: "?m = ?z * b + ?m mod b" by simp
  have r: "0 \<le> ?m mod b" "?m mod b < b" using assms by simp_all
  have le: "a \<le> ?z * b" using m r by linarith
  have gt: "(?z - 1) * b < a"
  proof -
    have "(?z - 1) * b = ?z * b - b" by (simp add: algebra_simps)
    with m r show ?thesis by linarith
  qed
  have pos: "0 < real_of_int b" using assms by simp
  have "real_of_int a \<le> real_of_int (?z * b)" using le by (simp only: of_int_le_iff)
  then have up: "real_of_int a / real_of_int b \<le> of_int ?z"
    using pos by (simp add: pos_divide_le_eq)
  have "real_of_int ((?z - 1) * b) < real_of_int a" using gt by (simp only: of_int_less_iff)
  then have lo: "of_int ?z - 1 < real_of_int a / real_of_int b"
    using pos by (simp add: pos_less_divide_eq)
  from lo up show ?thesis by (rule ceiling_unique [symmetric])
qed

lemma length_insert_by: "length (insert_by le x xs) = Suc (length xs)"
  by (induction xs) simp_all

lemma set_insert_by: "set (insert_by le x xs) = insert x (set xs)"
  by (induction xs) auto

lemma length_order_by: "length (order_by le xs) = length xs"
  by (induction xs) (simp_all add: order_by_def length_insert_by)

lemma set_order_by: "set (order_by le xs) = set xs"
  by (induction xs) (simp_all add: order_by_def set_insert_by)

lemma group_by_id_ids:
  "distinct (map (\<lambda>g. b_id (jr_b (hd g))) (group_by_id rs)) \<and>
   set (map (\<lambda>g. b_id (jr_b (hd g))) (group_by_id rs)) = set (map (\<lambda>r. b_id (jr_b r)) rs)"
proof (induction rs rule: group_by_id.induct)
  case 1
  show ?case by simp
next
  case (2 r rs)
  then show ?case by auto
qed

lemma length_group_by_id:
  "length (group_by_id rs) = length (remdups (map (\<lambda>r. b_id (jr_b r)) rs))"
proof -
  let ?gid = "\<lambda>g. b_id (jr_b (hd g))"
  have "length (group_by_id rs) = length (map ?gid (group_by_id rs))" by simp
  also have "\<dots> = card (set (map ?gid (group_by_id rs)))"
    using group_by_id_ids [of rs] distinct_card [of "map ?gid (group_by_id rs)"] by presburger
  also have "\<dots> = card (set (map (\<lambda>r. b_id (jr_b r)) rs))"
    using group_by_id_ids [of rs] by simp
  also have "\<dots> = length (remdups (map (\<lambda>r. b_id (jr_b r)) rs))"
    by (simp only: length_remdups_card_conv)
  finally show ?thesis .
qed

lemma distinct_map_outer: "distinct (map f (map g xs)) \<Longrightarrow> distinct (map g xs)"
  by (induction xs) auto

lemma b_id_select_group: "b_id (select_group g) = b_id (jr_b (hd g))"
  by (simp add: select_group_def Let_def bookmark.defs)

lemma distinct_select_groups: "distinct (map select_group (group_by_id rs))"
proof -
  have "distinct (map b_id (map select_group (group_by_id rs)))"
    using group_by_id_ids [of rs] by (simp add: comp_def b_id_select_group)
  then show ?thesis by (rule distinct_map_outer)
qed

lemma sql_where_Inr:
  assumes "sql_where cond rs = Inr kept"
  shows "kept = filter (\<lambda>r. cond r = Inr True) rs \<and> (\<forall>r \<in> set rs. \<exists>v. cond r = Inr v)"
  using assms
proof (induction rs arbitrary: kept)
  case Nil
  then show ?case by simp
next
  case (Cons r rs)
  from Cons.prems obtain keep kept' where
    c: "cond r = Inr keep" and k: "sql_where cond rs = Inr kept'" and
    e: "kept = (if keep then r # kept' else kept')"
    by (auto split: sum.splits)
  from Cons.IH [OF k] c e show ?case by auto
qed

lemma sql_where_total:
  assumes "\<forall>r \<in> set rs. \<exists>v. cond r = Inr v"
  shows "\<exists>kept. sql_where cond rs = Inr kept"
  using assms
proof (induction rs)
  case Nil
  show ?case by simp
next
  case (Cons r rs)
  then obtain v kept where "cond r = Inr v" "sql_where cond rs = Inr kept" by auto
  then show ?case by simp
qed

lemma select_rows_length:
  "length (order_by le (remdups (map select_group (group_by_id rows)))) =
     length (remdups (map (\<lambda>r. b_id (jr_b r)) rows))"
  by (simp add: length_order_by distinct_remdups_id [OF distinct_select_groups]
      length_group_by_id)

lemma select_query_length:
  assumes "select_query lims db is_unfiled folder_ids tag_id search sort_by sort_order = Inr full"
  shows "count_query lims db is_unfiled folder_ids tag_id search = Inr (length full)"
  using assms
  by (auto simp: select_query_def count_query_def select_rows_length split: sum.splits)

lemma count_query_select_query:
  assumes "count_query lims db is_unfiled folder_ids tag_id search = Inr n"
  shows "\<exists>full. select_query lims db is_unfiled folder_ids tag_id search sort_by sort_order =
           Inr full \<and> length full = n"
  using assms
  by (auto simp: select_query_def count_query_def select_rows_length split: sum.splits)

lemma get_all_bookmarks_Inr:
  assumes "get_all_bookmarks lims limit db folder_id tag_id search sort_by sort_order
             include_subfolders page per_page = Inr res"
  obtains folder_ids n full rows where
    "folder_scope limit db folder_id include_subfolders = Inr folder_ids"
    "count_query lims db (folder_id = Some ''unfiled'') folder_ids tag_id search = Inr n"
    "select_query lims db (folder_id = Some ''unfiled'') folder_ids tag_id search sort_by
       sort_order = Inr full"
    "limit_offset per_page ((page - 1) * per_page) full = Inr rows"
    "per_page \<noteq> 0"
    "qr_bookmarks res = rows" "qr_total res = int n"
    "qr_total_pages res = (int n + per_page - 1) div per_page"
  using assms
  by (auto simp: get_all_bookmarks_def Let_def split: sum.splits if_splits)

lemma limit_offset_Inr:
  assumes "limit_offset row_limit row_offset xs = Inr ys"
  shows "ys = (if row_limit < 0 then drop (nat row_offset) xs
               else take (nat row_limit) (drop (nat row_offset) xs))"
  using assms by (auto simp: limit_offset_def split: if_splits)

text \<open>
  C5. Whenever \<^verbatim>\<open>get_all_bookmarks\<close> returns for a page size of at least one and a page
  number of at least one, whatever the folder scope, the tag filter and the search text
  are: its \<^verbatim>\<open>total\<close> is the length of the full ordered result of the same filters with no
  \<^verbatim>\<open>LIMIT\<close>, its page is the slice of that result from offset \<open>(page - 1) * per_page\<close> of
  length at most \<open>per_page\<close>, and its \<^verbatim>\<open>total_pages\<close> is the ceiling of
  \<open>total / per_page\<close>.
\<close>

theorem get_all_bookmarks_total_and_pages:
  assumes "0 < per_page" and "1 \<le> page"
    and "get_all_bookmarks lims limit db folder_id tag_id search sort_by sort_order
           include_subfolders page per_page = Inr res"
  shows "\<exists>folder_ids full.
     folder_scope limit db folder_id include_subfolders = Inr folder_ids \<and>
     select_query lims db (folder_id = Some ''unfiled'') folder_ids tag_id search sort_by
        sort_order = Inr full \<and>
     qr_total res = int (length full) \<and>
     qr_bookmarks res = take (nat per_page) (drop (nat ((page - 1) * per_page)) full) \<and>
     qr_total_pages res = \<lceil>real_of_int (qr_total res) / real_of_int per_page\<rceil>"
proof -
  from assms(3) obtain folder_ids n full rows where
    scope: "folder_scope limit db folder_id include_subfolders = Inr folder_ids" and
    cnt: "count_query lims db (folder_id = Some ''unfiled'') folder_ids tag_id search = Inr n" and
    sel: "select_query lims db (folder_id = Some ''unfiled'') folder_ids tag_id search sort_by
       sort_order = Inr full" and
    lo: "limit_offset per_page ((page - 1) * per_page) full = Inr rows" and
    res: "qr_bookmarks res = rows" "qr_total res = int n"
      "qr_total_pages res = (int n + per_page - 1) div per_page"
    by (rule get_all_bookmarks_Inr)
  from select_query_length [OF sel] cnt have n: "n = length full" by simp
  from limit_offset_Inr [OF lo] assms(1)
  have rows: "rows = take (nat per_page) (drop (nat ((page - 1) * per_page)) full)" by simp
  from res(2,3) have "qr_total_pages res = \<lceil>real_of_int (qr_total res) / real_of_int per_page\<rceil>"
    using ceiling_div_pos [OF assms(1), of "int n"] by simp
  with scope sel n rows res(1,2) show ?thesis by blast
qed

theorem get_all_bookmarks_total_and_pages_witness:
  "(0::int) < 3 \<and> (1::int) \<le> 2 \<and>
   (\<exists>res full.
      get_all_bookmarks default_limits 1 sample_store None None None ''title'' ''asc'' True 2 3 =
        Inr res \<and>
      select_query default_limits sample_store False [] None None ''title'' ''asc'' = Inr full \<and>
      map b_id full = [''2'', ''3'', ''4'', ''1''] \<and>
      qr_total res = 4 \<and> map b_id (qr_bookmarks res) = [''1''] \<and> qr_total_pages res = 2)"
proof -
  have "case get_all_bookmarks default_limits 1 sample_store None None None ''title'' ''asc''
          True 2 3 of Inl e \<Rightarrow> False | Inr res \<Rightarrow> True"
    by code_simp
  then obtain res where
    r: "get_all_bookmarks default_limits 1 sample_store None None None ''title'' ''asc'' True 2 3 =
      Inr res"
    by (auto split: sum.splits)
  have "case select_query default_limits sample_store False [] None None ''title'' ''asc'' of
          Inl e \<Rightarrow> False | Inr full \<Rightarrow> map b_id full = [''2'', ''3'', ''4'', ''1'']"
    by code_simp
  then obtain full where
    s: "select_query default_limits sample_store False [] None None ''title'' ''asc'' = Inr full"
    and ids: "map b_id full = [''2'', ''3'', ''4'', ''1'']"
    by (auto split: sum.splits)
  have scope: "folder_scope 1 sample_store None True = Inr []"
    by (simp add: folder_scope_def)
  from get_all_bookmarks_total_and_pages [OF _ _ r] scope s
  have t: "qr_total res = int (length full)"
    and b: "qr_bookmarks res = take (nat 3) (drop (nat ((2 - 1) * 3)) full)"
    and p: "qr_total_pages res = \<lceil>real_of_int (qr_total res) / real_of_int 3\<rceil>"
    by auto
  have "length (map b_id full) = 4" by (simp only: ids) simp
  then have len: "length full = 4" by simp
  from t len have t4: "qr_total res = 4" by simp
  from b ids have bid: "map b_id (qr_bookmarks res) = [''1'']"
    by (simp add: take_map [symmetric] drop_map [symmetric])
  from p t4 have "qr_total_pages res = 2" by (simp add: ceiling_eq_iff)
  with r s ids t4 bid show ?thesis by simp
qed

text \<open>
  The call returns when the folder scope resolves, the parameters and the search pattern
  are within the limits, the page size and the offset are signed 64-bit integers, and the
  page size is not zero.
\<close>

lemma where_clause_defined:
  assumes "truthy search \<longrightarrow>
      int (utf8_length (''%'' @ the search @ ''%'')) \<le> limit_like_pattern_length lims"
  shows "\<exists>v. where_clause lims db is_unfiled folder_ids tag_id search b = Inr v"
  using assms
  by (auto simp: where_clause_def sql_and_def sql_or_def like_def Let_def)

lemma get_all_bookmarks_returns:
  assumes "folder_scope limit db folder_id include_subfolders = Inr folder_ids"
    and "prepare_and_bind lims
           (query_parameters (folder_id = Some ''unfiled'') folder_ids tag_id search) = None"
    and "truthy search \<longrightarrow>
           int (utf8_length (''%'' @ the search @ ''%'')) \<le> limit_like_pattern_length lims"
    and "int_to_str_ok lims per_page" and "int_to_str_ok lims ((page - 1) * per_page)"
    and "is_int64 per_page" and "is_int64 ((page - 1) * per_page)" and "per_page \<noteq> 0"
  shows "\<exists>res. get_all_bookmarks lims limit db folder_id tag_id search sort_by sort_order
           include_subfolders page per_page = Inr res"
proof -
  let ?u = "folder_id = Some ''unfiled''"
  have "\<forall>r \<in> set (from_joined db).
      \<exists>v. where_clause lims db ?u folder_ids tag_id search (jr_b r) = Inr v"
    using where_clause_defined [OF assms(3)] by blast
  from sql_where_total [OF this] obtain kept where
    "sql_where (\<lambda>r. where_clause lims db ?u folder_ids tag_id search (jr_b r)) (from_joined db) =
       Inr kept" by blast
  with assms(2) have fw: "from_where lims db ?u folder_ids tag_id search = Inr kept"
    by (simp add: from_where_def)
  then obtain n full where
    "count_query lims db ?u folder_ids tag_id search = Inr n"
    "select_query lims db ?u folder_ids tag_id search sort_by sort_order = Inr full"
    by (simp add: count_query_def select_query_def)
  moreover from assms(6,7) have
    "\<exists>rows. limit_offset per_page ((page - 1) * per_page) full = Inr rows"
    by (simp add: limit_offset_def)
  ultimately show ?thesis
    using assms(1,4,5,8) by (auto simp: get_all_bookmarks_def Let_def)
qed

lemma sorted_insert_by:
  assumes tot: "\<And>x y. le x y \<or> le y x" and tr: "\<And>x y z. le x y \<Longrightarrow> le y z \<Longrightarrow> le x z"
  shows "sorted_wrt le xs \<Longrightarrow> sorted_wrt le (insert_by le x xs)"
proof (induction xs)
  case Nil
  show ?case by simp
next
  case (Cons y ys)
  show ?case
  proof (cases "le x y")
    case True
    with Cons.prems tr have "\<forall>z \<in> set ys. le x z" by auto
    with True Cons.prems show ?thesis by simp
  next
    case False
    with tot have "le y x" by blast
    with False Cons show ?thesis by (auto simp: set_insert_by)
  qed
qed

lemma sorted_order_by:
  assumes "\<And>x y. le x y \<or> le y x" and "\<And>x y z. le x y \<Longrightarrow> le y z \<Longrightarrow> le x z"
  shows "sorted_wrt le (order_by le xs)"
proof (induction xs)
  case Nil
  show ?case by (simp add: order_by_def)
next
  case (Cons x xs)
  have "order_by le (x # xs) = insert_by le x (order_by le xs)" by (simp add: order_by_def)
  with Cons sorted_insert_by [of le, OF assms] show ?case by simp
qed

lemma column_le_total: "column_le col x y \<or> column_le col y x"
  by (cases col) auto

lemma column_le_trans: "column_le col x y \<Longrightarrow> column_le col y z \<Longrightarrow> column_le col x z"
  by (cases col) auto

lemma order_le_total: "order_le col asc x y \<or> order_le col asc y x"
  using column_le_total [of col x y] by (auto simp: order_le_def)

lemma order_le_trans: "order_le col asc x y \<Longrightarrow> order_le col asc y z \<Longrightarrow> order_le col asc x z"
  unfolding order_le_def
  by (smt (verit, best) column_le_trans)

lemma sorted_select_query:
  assumes "select_query lims db is_unfiled folder_ids tag_id search sort_by sort_order = Inr full"
  shows "sorted_wrt (order_le (valid_sorts sort_by) (sort_order = ''asc'')) full"
proof -
  from assms obtain rows where
    "full = order_by (order_le (valid_sorts sort_by) (sort_order = ''asc''))
       (remdups (map select_group (group_by_id rows)))"
    by (auto simp: select_query_def split: sum.splits)
  then show ?thesis
    by (simp only:) (rule sorted_order_by, rule order_le_total, rule order_le_trans)
qed

lemma sorted_wrt_limit_offset:
  assumes "sorted_wrt P xs" and "limit_offset l off xs = Inr ys"
  shows "sorted_wrt P ys"
  using assms by (auto simp: limit_offset_def split: if_splits)


lemma from_joined_bookmark: "r \<in> set (from_joined db) \<Longrightarrow> jr_b r \<in> set (bookmarks db)"
  by (auto simp: from_joined_def)


lemma group_by_id_members: "g \<in> set (group_by_id rs) \<Longrightarrow> g \<noteq> [] \<and> set g \<subseteq> set rs"
proof (induction rs arbitrary: g rule: group_by_id.induct)
  case 1
  then show ?case by simp
next
  case (2 r rs)
  from "2.prems" consider "g = r # filter (\<lambda>x. b_id (jr_b x) = b_id (jr_b r)) rs"
    | "g \<in> set (group_by_id (filter (\<lambda>x. b_id (jr_b x) \<noteq> b_id (jr_b r)) rs))" by auto
  then show ?case
  proof cases
    case 1
    then show ?thesis by auto
  next
    case 2
    from "2.IH" [OF this] show ?thesis by auto
  qed
qed

lemma from_where_Inr:
  assumes "from_where lims db is_unfiled folder_ids tag_id search = Inr rows"
  shows "rows = filter (\<lambda>r. where_clause lims db is_unfiled folder_ids tag_id search (jr_b r) =
             Inr True) (from_joined db) \<and>
         (\<forall>r \<in> set (from_joined db).
            \<exists>v. where_clause lims db is_unfiled folder_ids tag_id search (jr_b r) = Inr v)"
proof -
  from assms have
    "sql_where (\<lambda>r. where_clause lims db is_unfiled folder_ids tag_id search (jr_b r))
       (from_joined db) = Inr rows"
    by (auto simp: from_where_def split: option.splits)
  from sql_where_Inr [OF this] show ?thesis by simp
qed

lemma select_query_rows:
  assumes "select_query lims db is_unfiled folder_ids tag_id search sort_by sort_order = Inr full"
  obtains rows where
    "from_where lims db is_unfiled folder_ids tag_id search = Inr rows"
    "set full = set (map select_group (group_by_id rows))"
  using assms by (auto simp: select_query_def set_order_by split: sum.splits)

lemma select_query_row:
  assumes "select_query lims db is_unfiled folder_ids tag_id search sort_by sort_order = Inr full"
    and "x \<in> set full"
  shows "bookmark.truncate x \<in> set (bookmarks db) \<and>
         where_clause lims db is_unfiled folder_ids tag_id search (bookmark.truncate x) = Inr True"
proof -
  from assms(1) obtain rows where
    fw: "from_where lims db is_unfiled folder_ids tag_id search = Inr rows" and
    full: "set full = set (map select_group (group_by_id rows))"
    by (rule select_query_rows)
  from assms(2) full obtain g where g: "g \<in> set (group_by_id rows)" and x: "x = select_group g"
    by auto
  from group_by_id_members [OF g] have "hd g \<in> set rows" by (cases g) auto
  with from_where_Inr [OF fw] have "jr_b (hd g) \<in> set (bookmarks db)"
    "where_clause lims db is_unfiled folder_ids tag_id search (jr_b (hd g)) = Inr True"
    by (simp_all add: from_joined_bookmark)
  moreover have "bookmark.truncate x = jr_b (hd g)"
    by (simp add: x select_group_def Let_def bookmark.defs)
  ultimately show ?thesis by simp
qed

lemma b_pinned_truncate: "b_pinned (bookmark.truncate x) = b_pinned x"
  by (simp add: bookmark.defs)

lemma toggle_pin_flags:
  assumes "\<forall>b \<in> set (bookmarks db). b_pinned b = 0 \<or> b_pinned b = 1"
  shows "\<forall>b \<in> set (bookmarks (snd (toggle_pin i db))). b_pinned b = 0 \<or> b_pinned b = 1"
  using assms by (auto simp: toggle_pin_def Let_def split: option.splits)

lemma create_bookmark_flags:
  assumes "\<forall>b \<in> set (bookmarks db). b_pinned b = 0 \<or> b_pinned b = 1"
    and "create_bookmark i url title d f tids fav db = Inr db'"
  shows "\<forall>b \<in> set (bookmarks db'). b_pinned b = 0 \<or> b_pinned b = 1"
  using assms by (auto simp: create_bookmark_def split: sum.splits)

text \<open>
  C6. In the list that \<^verbatim>\<open>get_all_bookmarks\<close> returns (pinned flags being 0 or 1, as
  \<^verbatim>\<open>create_bookmark\<close> and \<^verbatim>\<open>toggle_pin\<close> store them), for every sort field and direction:
  a row that comes later is pinned only if every earlier row is pinned too, and two rows
  of the same group are in the requested order of the requested field; a sort field other
  than title, url and created\_at gives the result of sorting by created\_at.
\<close>

theorem pinned_first_then_requested_order:
  assumes "get_all_bookmarks lims limit db folder_id tag_id search sort_by sort_order
             include_subfolders page per_page = Inr res"
    and "\<forall>b \<in> set (bookmarks db). b_pinned b = 0 \<or> b_pinned b = 1"
  shows "sorted_wrt (\<lambda>x y. (b_pinned y \<noteq> 0 \<longrightarrow> b_pinned x \<noteq> 0) \<and>
            ((b_pinned x \<noteq> 0) = (b_pinned y \<noteq> 0) \<longrightarrow> in_requested_order sort_by sort_order x y))
           (qr_bookmarks res) \<and>
         (sort_by \<notin> {''title'', ''url'', ''created_at''} \<longrightarrow>
            get_all_bookmarks lims limit db folder_id tag_id search ''created_at'' sort_order
              include_subfolders page per_page = Inr res)"
proof -
  let ?unf = "folder_id = Some ''unfiled''"
  from assms(1) obtain folder_ids full rows where
    sel: "select_query lims db ?unf folder_ids tag_id search sort_by sort_order = Inr full" and
    lo: "limit_offset per_page ((page - 1) * per_page) full = Inr rows" and
    rows: "qr_bookmarks res = rows"
    by (rule get_all_bookmarks_Inr)
  let ?P = "\<lambda>x y. (b_pinned y \<noteq> 0 \<longrightarrow> b_pinned x \<noteq> 0) \<and>
            ((b_pinned x \<noteq> 0) = (b_pinned y \<noteq> 0) \<longrightarrow> in_requested_order sort_by sort_order x y)"
  have flag: "b_pinned x = 0 \<or> b_pinned x = 1" if "x \<in> set full" for x
    using select_query_row [OF sel that] assms(2) b_pinned_truncate [of x] by metis
  have "sorted_wrt (\<lambda>x y. order_le (valid_sorts sort_by) (sort_order = ''asc'') x y \<and>
      x \<in> set full \<and> y \<in> set full) full"
    using sorted_select_query [OF sel] by (simp add: sorted_wrt_iff_nth_less)
  then have "sorted_wrt ?P full"
  proof (rule sorted_wrt_mono_rel [rotated])
    fix x y
    assume "x \<in> set full" "y \<in> set full"
      and "order_le (valid_sorts sort_by) (sort_order = ''asc'') x y \<and>
        x \<in> set full \<and> y \<in> set full"
    with flag [of x] flag [of y] show "?P x y"
      by (auto simp: order_le_def in_requested_order_def valid_sorts_def)
  qed
  then have "sorted_wrt ?P rows" using lo by (rule sorted_wrt_limit_offset)
  then have first: "sorted_wrt ?P (qr_bookmarks res)" by (simp only: rows)
  have "get_all_bookmarks lims limit db folder_id tag_id search ''created_at'' sort_order
        include_subfolders page per_page = Inr res"
    if ns: "sort_by \<notin> {''title'', ''url'', ''created_at''}"
  proof -
    have vs: "valid_sorts sort_by = valid_sorts ''created_at''"
      using ns by (simp add: valid_sorts_def)
    have sq: "select_query lims db u ids tag_id search sort_by sort_order =
        select_query lims db u ids tag_id search ''created_at'' sort_order" for u ids
      by (simp only: select_query_def vs)
    have "get_all_bookmarks lims limit db folder_id tag_id search ''created_at'' sort_order
        include_subfolders page per_page =
      get_all_bookmarks lims limit db folder_id tag_id search sort_by sort_order
        include_subfolders page per_page"
      unfolding get_all_bookmarks_def sq ..
    also note assms(1)
    finally show ?thesis .
  qed
  with first show ?thesis by blast
qed

theorem pinned_first_then_requested_order_witness:
  "\<exists>res. get_all_bookmarks default_limits 1 sample_store None None None ''title'' ''asc'' True
            1 25 = Inr res \<and>
     (\<forall>b \<in> set (bookmarks sample_store). b_pinned b = 0 \<or> b_pinned b = 1) \<and>
     map b_title (qr_bookmarks res) = [''Copy'', ''Happy'', ''Other'', ''Python''] \<and>
     map b_pinned (qr_bookmarks res) = [1, 0, 0, 0] \<and>
     sorted_wrt (\<lambda>x y. (b_pinned y \<noteq> 0 \<longrightarrow> b_pinned x \<noteq> 0) \<and>
        ((b_pinned x \<noteq> 0) = (b_pinned y \<noteq> 0) \<longrightarrow> in_requested_order ''title'' ''asc'' x y))
       (qr_bookmarks res)"
proof -
  have "case get_all_bookmarks default_limits 1 sample_store None None None ''title'' ''asc''
          True 1 25 of
          Inl e \<Rightarrow> False
        | Inr res \<Rightarrow> map b_title (qr_bookmarks res) = [''Copy'', ''Happy'', ''Other'', ''Python''] \<and>
            map b_pinned (qr_bookmarks res) = [1, 0, 0, 0]"
    by code_simp
  then obtain res where
    r: "get_all_bookmarks default_limits 1 sample_store None None None ''title'' ''asc'' True
          1 25 = Inr res"
    and titles: "map b_title (qr_bookmarks res) = [''Copy'', ''Happy'', ''Other'', ''Python'']"
    and pins: "map b_pinned (qr_bookmarks res) = [1, 0, 0, 0]"
    by (auto split: sum.splits)
  have flags: "\<forall>b \<in> set (bookmarks sample_store). b_pinned b = 0 \<or> b_pinned b = 1"
    by (simp add: sample_store_def sample_bookmark_def empty_store_def)
  from titles pins r flags pinned_first_then_requested_order [OF r flags] show ?thesis
    by (intro exI [of _ res]) simp
qed

section \<open>Search\<close>

lemma ci_prefix_iff:
  "ci_prefix s t \<longleftrightarrow> (\<exists>w. map ascii_lower t = map ascii_lower s @ w)"
proof (induction s t rule: ci_prefix.induct)
  case (1 t)
  show ?case by simp
next
  case (2 c cs)
  show ?case by simp
next
  case (3 c cs d ds)
  then show ?case by auto
qed

lemma ci_substring_iff:
  "ci_substring s t \<longleftrightarrow> (\<exists>u w. map ascii_lower t = u @ map ascii_lower s @ w)"
proof (induction t)
  case Nil
  show ?case by (cases s) auto
next
  case (Cons d ds)
  show ?case
  proof
    assume "ci_substring s (d # ds)"
    then consider "ci_prefix s (d # ds)" | "ci_substring s ds" by auto
    then show "\<exists>u w. map ascii_lower (d # ds) = u @ map ascii_lower s @ w"
    proof cases
      case 1
      then obtain w where "map ascii_lower (d # ds) = [] @ map ascii_lower s @ w"
        by (auto simp: ci_prefix_iff)
      then show ?thesis by blast
    next
      case 2
      with Cons obtain u w where "map ascii_lower ds = u @ map ascii_lower s @ w" by blast
      then have "map ascii_lower (d # ds) = (ascii_lower d # u) @ map ascii_lower s @ w" by simp
      then show ?thesis by blast
    qed
  next
    assume "\<exists>u w. map ascii_lower (d # ds) = u @ map ascii_lower s @ w"
    then obtain u w where uw: "map ascii_lower (d # ds) = u @ map ascii_lower s @ w" by blast
    show "ci_substring s (d # ds)"
    proof (cases u)
      case Nil
      with uw have "ci_prefix s (d # ds)" by (auto simp: ci_prefix_iff)
      then show ?thesis by simp
    next
      case (Cons e es)
      with uw have "map ascii_lower ds = es @ map ascii_lower s @ w" by simp
      with Cons.IH have "ci_substring s ds" by blast
      then show ?thesis by simp
    qed
  qed
qed













section \<open>The folder tree\<close>

lemma folder_truncate_extend: "folder.truncate (folder.extend (f::folder) m) = f"
  by (cases f) (simp add: folder.defs)

lemma f_id_set_children: "map f_id (set_children fd i cs) = map f_id fd"
  by (induction fd) (simp_all add: set_children_def)

lemma children_at_mem:
  assumes "c \<in> set (children_at fd i)"
  shows "\<exists>n \<in> set fd. f_id n = i \<and> c \<in> set (children n)"
proof (cases "find (\<lambda>n. f_id n = i) fd")
  case None
  with assms show ?thesis by (simp add: children_at_def)
next
  case (Some n)
  then have "n \<in> set fd" "f_id n = i" by (auto simp: find_Some_iff)
  with assms Some show ?thesis by (auto simp: children_at_def)
qed

lemma tree_inv_set_children:
  assumes "tree_inv fs h"
    and "\<forall>c \<in> set cs. \<exists>f \<in> set fs. f_id f = c \<and> f_parent_id f = Some i"
  shows "tree_inv fs (h\<lparr>folder_dict := set_children (folder_dict h) i cs\<rparr>)"
  using assms unfolding tree_inv_def
  by (auto simp: f_id_set_children) (auto simp: set_children_def split: if_splits)

lemma tree_inv_children_at:
  assumes "tree_inv fs h" and "c \<in> set (children_at (folder_dict h) i)"
  shows "\<exists>f \<in> set fs. f_id f = c \<and> f_parent_id f = Some i"
  using children_at_mem [OF assms(2)] assms(1) unfolding tree_inv_def by blast

lemma tree_inv_attach:
  assumes "tree_inv fs h" and "\<forall>n \<in> set ns. folder.truncate n \<in> set fs"
  shows "tree_inv fs (attach ns h)"
  using assms
proof (induction ns arbitrary: h)
  case Nil
  then show ?case by simp
next
  case (Cons n ns)
  let ?f = "folder.truncate n"
  have fld: "f_id ?f = f_id n" "f_parent_id ?f = f_parent_id n" by (simp_all add: folder.defs)
  from Cons.prems have mem: "?f \<in> set fs" by simp
  let ?h = "case f_parent_id n of
          None \<Rightarrow> h\<lparr>root_folders := root_folders h @ [f_id n]\<rparr>
        | Some p \<Rightarrow>
            if p \<in> set (map f_id (folder_dict h))
            then h\<lparr>folder_dict := set_children (folder_dict h) p
                     (children_at (folder_dict h) p @ [f_id n])\<rparr>
            else h"
  have "tree_inv fs ?h"
  proof (cases "f_parent_id n")
    case None
    with Cons.prems(1) mem fld show ?thesis by (auto simp: tree_inv_def)
  next
    case (Some p)
    show ?thesis
    proof (cases "p \<in> set (map f_id (folder_dict h))")
      case False
      with Some Cons.prems(1) show ?thesis by simp
    next
      case True
      have "\<forall>c \<in> set (children_at (folder_dict h) p @ [f_id n]).
          \<exists>f \<in> set fs. f_id f = c \<and> f_parent_id f = Some p"
        using tree_inv_children_at [OF Cons.prems(1)] mem fld Some by auto
      from tree_inv_set_children [OF Cons.prems(1) this] Some True show ?thesis by simp
    qed
  qed
  moreover have "\<forall>n \<in> set ns. folder.truncate n \<in> set fs" using Cons.prems(2) by simp
  ultimately have "tree_inv fs (attach ns ?h)" by (rule Cons.IH)
  then show ?case by simp
qed

lemma tree_inv_initial:
  "tree_inv (folders db)
     (attach (hierarchy_rows db) \<lparr>folder_dict = hierarchy_rows db, root_folders = []\<rparr>)"
proof (rule tree_inv_attach)
  show "tree_inv (folders db) \<lparr>folder_dict = hierarchy_rows db, root_folders = []\<rparr>"
    by (auto simp: tree_inv_def hierarchy_rows_def folder.defs comp_def)
  show "\<forall>n \<in> set (hierarchy_rows db). folder.truncate n \<in> set (folders db)"
    by (auto simp: hierarchy_rows_def folder_truncate_extend)
qed

lemma tree_inv_set_list:
  assumes "tree_inv fs h" and "set xs = set (get_list h r)"
  shows "tree_inv fs (set_list h r xs)"
proof (cases r)
  case Root_list
  with assms show ?thesis by (auto simp: tree_inv_def)
next
  case (Children_of i)
  with assms have "\<forall>c \<in> set xs. \<exists>f \<in> set fs. f_id f = c \<and> f_parent_id f = Some i"
    using tree_inv_children_at [OF assms(1)] by simp
  from tree_inv_set_children [OF assms(1) this] Children_of show ?thesis by simp
qed

lemma tree_inv_sort:
  "sort_folders_recursive n h r = Inr h' \<Longrightarrow> tree_inv fs h \<Longrightarrow> tree_inv fs h'"
  "sort_children n h xs = Inr h' \<Longrightarrow> tree_inv fs h \<Longrightarrow> tree_inv fs h'"
proof (induction n h r and n h xs arbitrary: h' and h' rule: sort_folders_recursive_sort_children.induct)
  case (1 h r)
  then show ?case by simp
next
  case (2 n h r)
  let ?h1 = "set_list h r (sort_key (sort_name (folder_dict h)) (get_list h r))"
  have "tree_inv fs ?h1" using "2.prems"(2) by (rule tree_inv_set_list) simp
  moreover from "2.prems"(1) have "sort_children n ?h1 (get_list ?h1 r) = Inr h'"
    by (simp add: Let_def)
  ultimately show ?case using "2.IH" by blast
next
  case (3 n h)
  then show ?case by simp
next
  case (4 n h i rest)
  show ?case
  proof (cases "children_at (folder_dict h) i \<noteq> []")
    case False
    with "4.prems" "4.IH"(3) show ?thesis by simp
  next
    case True
    with "4.prems"(1) obtain h1 where
      h1: "sort_folders_recursive n h (Children_of i) = Inr h1" and
      rest: "sort_children n h1 rest = Inr h'"
      by (auto split: sum.splits)
    from "4.IH"(1) [OF True h1 "4.prems"(2)] have "tree_inv fs h1" .
    from "4.IH"(2) [OF True h1 rest this] show ?thesis .
  qed
qed

lemma unique_row:
  assumes "distinct (map f_id fs)" and "f \<in> set fs" and "g \<in> set fs" and "f_id f = f_id g"
  shows "f = g"
  using assms by (meson distinct_map inj_onD)

lemma rooted_stored: "rooted fs y \<Longrightarrow> y \<in> set (map f_id fs)"
  by (induction rule: rooted.induct) auto

lemma in_tree_rooted:
  assumes "tree_inv fs h" and "y \<in> in_tree h"
  shows "rooted fs y"
proof -
  from assms(2) obtain r where r: "r \<in> set (root_folders h)" and
    path: "(r, y) \<in> (child_edges h)\<^sup>*" by (auto simp: in_tree_def)
  from path show ?thesis
  proof (induction rule: rtrancl_induct)
    case base
    from r assms(1) show ?case by (auto simp: tree_inv_def intro: rooted.root)
  next
    case (step a c)
    from step.hyps(2) obtain n where "n \<in> set (folder_dict h)" "f_id n = a" "c \<in> set (children n)"
      by (auto simp: child_edges_def)
    with assms(1) obtain f where "f \<in> set fs" "f_id f = c" "f_parent_id f = Some a"
      unfolding tree_inv_def by blast
    with step.IH show ?case by (auto intro: rooted.child)
  qed
qed

lemma parent_rel_unique:
  assumes "distinct (map f_id fs)" and "f \<in> set fs" and "(f_id f, q) \<in> parent_rel fs"
  shows "f_parent_id f = Some q"
proof -
  from assms(3) obtain g where g: "g \<in> set fs" "f_id g = f_id f" "f_parent_id g = Some q"
    by (auto simp: parent_rel_def)
  with unique_row [OF assms(1) g(1) assms(2)] show ?thesis by simp
qed

lemma rooted_not_below_orphan:
  assumes d: "distinct (map f_id fs)" and x: "x \<in> set fs" and px: "f_parent_id x = Some p"
    and dangling: "p \<notin> set (map f_id fs)"
  shows "rooted fs y \<Longrightarrow> (y, f_id x) \<notin> (parent_rel fs)\<^sup>*"
proof (induction rule: rooted.induct)
  case (root f)
  show ?case
  proof
    assume "(f_id f, f_id x) \<in> (parent_rel fs)\<^sup>*"
    then show False
    proof (cases rule: converse_rtranclE)
      case base
      with unique_row [OF d root.hyps(1) x] root.hyps(2) px show False by simp
    next
      case (step z)
      from parent_rel_unique [OF d root.hyps(1) step(1)] root.hyps(2) show False by simp
    qed
  qed
next
  case (child f q)
  show ?case
  proof
    assume "(f_id f, f_id x) \<in> (parent_rel fs)\<^sup>*"
    then show False
    proof (cases rule: converse_rtranclE)
      case base
      with unique_row [OF d child.hyps(1) x] child.hyps(2) px have "q = p" by simp
      with rooted_stored [OF child.hyps(3)] dangling show False by simp
    next
      case (step z)
      from parent_rel_unique [OF d child.hyps(1) step(1)] child.hyps(2) have "z = q" by simp
      with step(2) child.IH show False by simp
    qed
  qed
qed

lemma orphan_omitted:
  assumes d: "distinct (map f_id fs)" and x: "x \<in> set fs" and px: "f_parent_id x = Some p"
    and dangling: "p \<notin> set (map f_id fs)" and inv: "tree_inv fs h"
  shows "f_id x \<notin> set (root_folders h) \<and> (\<forall>n \<in> set (folder_dict h). f_id x \<notin> set (children n)) \<and>
     (\<forall>y. (y, f_id x) \<in> (parent_rel fs)\<^sup>* \<longrightarrow> y \<notin> in_tree h)"
proof (intro conjI ballI allI impI)
  show "f_id x \<notin> set (root_folders h)"
  proof
    assume "f_id x \<in> set (root_folders h)"
    with inv obtain f where "f \<in> set fs" "f_id f = f_id x" "f_parent_id f = None"
      unfolding tree_inv_def by blast
    with unique_row [OF d this(1) x] px show False by simp
  qed
next
  fix n assume n: "n \<in> set (folder_dict h)"
  show "f_id x \<notin> set (children n)"
  proof
    assume "f_id x \<in> set (children n)"
    with inv n obtain f where f: "f \<in> set fs" "f_id f = f_id x" "f_parent_id f = Some (f_id n)"
      unfolding tree_inv_def by blast
    with unique_row [OF d f(1) x] px have "p = f_id n" by simp
    moreover from inv n have "f_id n \<in> set (map f_id fs)"
      unfolding tree_inv_def by (metis image_eqI set_map)
    ultimately show False using dangling by simp
  qed
next
  fix y assume "(y, f_id x) \<in> (parent_rel fs)\<^sup>*"
  with rooted_not_below_orphan [OF d x px dangling] in_tree_rooted [OF inv]
  show "y \<notin> in_tree h" by blast
qed

lemma below_card_less:
  assumes "finite r" and "acyclic r" and "(c, x) \<in> r"
  shows "card {y. (y, c) \<in> r\<^sup>+} < card {y. (y, x) \<in> r\<^sup>+}"
proof (rule psubset_card_mono)
  have "{y. (y, x) \<in> r\<^sup>+} \<subseteq> Domain r" by (auto dest: tranclD)
  with assms(1) show "finite {y. (y, x) \<in> r\<^sup>+}"
    by (meson finite_Domain finite_subset)
  have "c \<in> {y. (y, x) \<in> r\<^sup>+}" using assms(3) by auto
  moreover have "c \<notin> {y. (y, c) \<in> r\<^sup>+}" using assms(2) by (auto simp: acyclic_def)
  moreover have "{y. (y, c) \<in> r\<^sup>+} \<subseteq> {y. (y, x) \<in> r\<^sup>+}"
    using assms(3) by (auto intro: trancl_into_trancl)
  ultimately show "{y. (y, c) \<in> r\<^sup>+} \<subset> {y. (y, x) \<in> r\<^sup>+}" by blast
qed

lemma below_card_le:
  assumes "r \<subseteq> parent_rel fs"
  shows "card {y. (y, x) \<in> r\<^sup>+} \<le> length fs"
proof -
  have "{y. (y, x) \<in> r\<^sup>+} \<subseteq> set (map f_id fs)"
  proof
    fix y assume "y \<in> {y. (y, x) \<in> r\<^sup>+}"
    then obtain z where "(y, z) \<in> r" by (auto dest: tranclD)
    with assms have "(y, z) \<in> parent_rel fs" by blast
    then show "y \<in> set (map f_id fs)" by (rule parent_rel_source)
  qed
  then have "card {y. (y, x) \<in> r\<^sup>+} \<le> card (set (map f_id fs))"
    by (intro card_mono) simp_all
  also have "\<dots> \<le> length (map f_id fs)" by (rule card_length)
  finally show ?thesis by simp
qed

lemma rooted_rel_child:
  assumes "f \<in> set fs" and "f_parent_id f = Some p" and "rooted fs p"
  shows "(f_id f, p) \<in> rooted_rel fs"
  using assms by (auto simp: rooted_rel_def parent_rel_def)

lemma rooted_no_loop:
  assumes d: "distinct (map f_id fs)"
  shows "rooted fs y \<Longrightarrow> (y, y) \<notin> (rooted_rel fs)\<^sup>+"
proof (induction rule: rooted.induct)
  case (root f)
  show ?case
  proof
    assume "(f_id f, f_id f) \<in> (rooted_rel fs)\<^sup>+"
    then obtain z where "(f_id f, z) \<in> rooted_rel fs" by (auto dest: tranclD)
    then have "(f_id f, z) \<in> parent_rel fs" by (simp add: rooted_rel_def)
    from parent_rel_unique [OF d root.hyps(1) this] root.hyps(2) show False by simp
  qed
next
  case (child f q)
  show ?case
  proof
    assume "(f_id f, f_id f) \<in> (rooted_rel fs)\<^sup>+"
    then obtain z where z: "(f_id f, z) \<in> rooted_rel fs" "(z, f_id f) \<in> (rooted_rel fs)\<^sup>*"
      by (auto dest: tranclD)
    then have "(f_id f, z) \<in> parent_rel fs" by (simp add: rooted_rel_def)
    from parent_rel_unique [OF d child.hyps(1) this] child.hyps(2) have "z = q" by simp
    with z have "(q, q) \<in> (rooted_rel fs)\<^sup>+" by (auto intro: rtrancl_into_trancl1)
    with child.IH show False by simp
  qed
qed

lemma rooted_rel_acyclic:
  assumes "distinct (map f_id fs)"
  shows "acyclic (rooted_rel fs)"
  unfolding acyclic_def
proof (intro allI notI)
  fix x assume loop: "(x, x) \<in> (rooted_rel fs)\<^sup>+"
  then obtain z where "(x, z) \<in> rooted_rel fs" by (auto dest: tranclD)
  then obtain f where "f \<in> set fs" "f_id f = x" "f_parent_id f = Some z" "rooted fs z"
    by (auto simp: rooted_rel_def parent_rel_def)
  then have "rooted fs x" by (auto intro: rooted.child)
  from rooted_no_loop [OF assms this] loop show False by simp
qed

lemma rooted_rel_finite: "finite (rooted_rel fs)"
  by (rule finite_subset [OF _ parent_rel_finite [of fs]]) (auto simp: rooted_rel_def)

lemma get_list_set_list: "set (get_list (set_list h r xs) r) \<subseteq> set xs"
proof (cases r)
  case Root_list
  then show ?thesis by simp
next
  case (Children_of i)
  have "set (children_at (set_children fd i xs) i) \<subseteq> set xs" for fd
    by (induction fd) (auto simp: children_at_def set_children_def)
  with Children_of show ?thesis by simp
qed

lemma sort_terminates:
  assumes d: "distinct (map f_id fs)"
  shows "tree_inv fs h \<Longrightarrow> n \<noteq> 0 \<Longrightarrow>
      \<forall>i \<in> set (get_list h r). rooted fs i \<and> card {y. (y, i) \<in> (rooted_rel fs)\<^sup>+} < n \<Longrightarrow>
      \<exists>h'. sort_folders_recursive n h r = Inr h'"
    and "tree_inv fs h \<Longrightarrow>
      \<forall>i \<in> set xs. rooted fs i \<and> card {y. (y, i) \<in> (rooted_rel fs)\<^sup>+} \<le> n \<Longrightarrow>
      \<exists>h'. sort_children n h xs = Inr h'"
proof (induction n h r and n h xs rule: sort_folders_recursive_sort_children.induct)
  case (1 h r)
  then show ?case by simp
next
  case (2 n h r)
  let ?h1 = "set_list h r (sort_key (sort_name (folder_dict h)) (get_list h r))"
  have inv1: "tree_inv fs ?h1" using "2.prems"(1) by (rule tree_inv_set_list) simp
  have "set (get_list ?h1 r) \<subseteq> set (get_list h r)"
    using get_list_set_list [of h r "sort_key (sort_name (folder_dict h)) (get_list h r)"]
    by simp
  with "2.prems"(3)
  have "\<forall>i \<in> set (get_list ?h1 r). rooted fs i \<and> card {y. (y, i) \<in> (rooted_rel fs)\<^sup>+} \<le> n"
    by fastforce
  from "2.IH" [OF refl inv1 this] show ?case by (simp add: Let_def)
next
  case (3 n h)
  show ?case by simp
next
  case (4 n h i rest)
  from "4.prems"(2) have ri: "rooted fs i" and ci: "card {y. (y, i) \<in> (rooted_rel fs)\<^sup>+} \<le> n"
    and rest: "\<forall>j \<in> set rest. rooted fs j \<and> card {y. (y, j) \<in> (rooted_rel fs)\<^sup>+} \<le> n"
    by simp_all
  show ?case
  proof (cases "children_at (folder_dict h) i \<noteq> []")
    case False
    with "4.IH"(3) [OF _ "4.prems"(1) rest] show ?thesis by simp
  next
    case True
    have kids: "rooted fs c \<and> card {y. (y, c) \<in> (rooted_rel fs)\<^sup>+} < n"
      if "c \<in> set (children_at (folder_dict h) i)" for c
    proof -
      from tree_inv_children_at [OF "4.prems"(1) that] obtain f where
        f: "f \<in> set fs" "f_id f = c" "f_parent_id f = Some i" by blast
      with ri have "rooted fs c" by (auto intro: rooted.child)
      moreover from rooted_rel_child [OF f(1,3) ri] f(2) have "(c, i) \<in> rooted_rel fs" by simp
      from below_card_less [OF rooted_rel_finite rooted_rel_acyclic [OF d] this] ci
      have "card {y. (y, c) \<in> (rooted_rel fs)\<^sup>+} < n" by simp
      ultimately show ?thesis by simp
    qed
    from True obtain c where "c \<in> set (children_at (folder_dict h) i)"
      by (meson last_in_set)
    from kids [OF this] have "n \<noteq> 0" by linarith
    from "4.IH"(1) [OF True "4.prems"(1) this] kids obtain h1 where
      h1: "sort_folders_recursive n h (Children_of i) = Inr h1" by auto
    from tree_inv_sort(1) [OF h1 "4.prems"(1)] have "tree_inv fs h1" .
    from "4.IH"(2) [OF True h1 this rest] True h1 show ?thesis by simp
  qed
qed

lemma get_folder_hierarchy_returns:
  assumes "distinct (map f_id (folders db))" and "length (folders db) < limit"
  shows "\<exists>h. get_folder_hierarchy limit db = Inr h"
proof -
  let ?fs = "folders db"
  let ?h0 = "attach (hierarchy_rows db) \<lparr>folder_dict = hierarchy_rows db, root_folders = []\<rparr>"
  have inv: "tree_inv ?fs ?h0" by (rule tree_inv_initial)
  have "rooted ?fs i \<and> card {y. (y, i) \<in> (rooted_rel ?fs)\<^sup>+} < limit"
    if "i \<in> set (get_list ?h0 Root_list)" for i
  proof -
    from that inv have "rooted ?fs i" by (auto simp: tree_inv_def intro: rooted.root)
    moreover have "rooted_rel ?fs \<subseteq> parent_rel ?fs" by (auto simp: rooted_rel_def)
    from below_card_le [OF this, of i] assms(2)
    have "card {y. (y, i) \<in> (rooted_rel ?fs)\<^sup>+} < limit" by simp
    ultimately show ?thesis by simp
  qed
  moreover from assms(2) have "limit \<noteq> 0" by simp
  ultimately have "\<exists>h. sort_folders_recursive limit ?h0 Root_list = Inr h"
    using sort_terminates(1) [OF assms(1) inv] by blast
  then show ?thesis by (simp add: get_folder_hierarchy_def Let_def)
qed

text \<open>
  C10. With the folder ids distinct (they are the primary key) and a recursion depth above
  the number of folders, \<^verbatim>\<open>get_folder_hierarchy\<close> returns; and in what it returns a
  folder whose parent id is not \<^verbatim>\<open>None\<close> and is the id of no folder is not in
  \<^verbatim>\<open>root_folders\<close>, is in no \<^verbatim>\<open>children\<close> list, and neither it nor any of its
  descendants is reachable from \<^verbatim>\<open>root_folders\<close> through \<^verbatim>\<open>children\<close>.
\<close>

theorem hierarchy_omits_orphans:
  assumes "distinct (map f_id (folders db))" and "length (folders db) < limit"
    and "x \<in> set (folders db)" and "f_parent_id x = Some p"
    and "p \<notin> set (map f_id (folders db))"
  shows "\<exists>h. get_folder_hierarchy limit db = Inr h \<and>
     f_id x \<notin> set (root_folders h) \<and>
     (\<forall>n \<in> set (folder_dict h). f_id x \<notin> set (children n)) \<and>
     (\<forall>y. (y, f_id x) \<in> (parent_rel (folders db))\<^sup>* \<longrightarrow> y \<notin> in_tree h)"
proof -
  from get_folder_hierarchy_returns [OF assms(1,2)] obtain h where
    h: "get_folder_hierarchy limit db = Inr h" ..
  then have "tree_inv (folders db) h"
    using tree_inv_sort(1) [OF _ tree_inv_initial [of db]]
    by (simp add: get_folder_hierarchy_def Let_def)
  from orphan_omitted [OF assms(1,3,4,5) this] h show ?thesis by blast
qed

theorem hierarchy_omits_orphans_witness:
  "distinct (map f_id (folders orphan_store)) \<and> length (folders orphan_store) < 5 \<and>
   (\<exists>h. get_folder_hierarchy 5 orphan_store = Inr h \<and> root_folders h = [''r''] \<and>
      ''o'' \<notin> set (root_folders h) \<and>
      (\<forall>n \<in> set (folder_dict h). ''o'' \<notin> set (children n)) \<and>
      ''o'' \<notin> in_tree h \<and> ''g'' \<notin> in_tree h)"
proof -
  let ?x = "\<lparr>f_id = ''o'', f_name = ''Orphan'', f_parent_id = Some ''gone'', f_created_at = 0\<rparr>"
  have d: "distinct (map f_id (folders orphan_store))"
    by (simp add: orphan_store_def empty_store_def)
  have l: "length (folders orphan_store) < 5" by (simp add: orphan_store_def empty_store_def)
  have x: "?x \<in> set (folders orphan_store)" by (simp add: orphan_store_def empty_store_def)
  have p: "f_parent_id ?x = Some ''gone''" by simp
  have g: "''gone'' \<notin> set (map f_id (folders orphan_store))"
    by (simp add: orphan_store_def empty_store_def)
  have below: "(''g'', ''o'') \<in> (parent_rel (folders orphan_store))\<^sup>*"
    by (rule r_into_rtrancl)
      (simp add: orphan_store_def empty_store_def parent_rel_Cons parent_rel_Nil)
  have roots: "root_folders (projr (get_folder_hierarchy 5 orphan_store)) = [''r'']"
    by code_simp
  from hierarchy_omits_orphans [OF d l x p g] obtain h where
    h: "get_folder_hierarchy 5 orphan_store = Inr h" and
    a: "''o'' \<notin> set (root_folders h)" and
    b: "\<forall>n \<in> set (folder_dict h). ''o'' \<notin> set (children n)" and
    c: "\<forall>y. (y, ''o'') \<in> (parent_rel (folders orphan_store))\<^sup>* \<longrightarrow> y \<notin> in_tree h"
    by auto
  from c below have "''o'' \<notin> in_tree h" "''g'' \<notin> in_tree h" by blast+
  with d l h a b roots show ?thesis by simp
qed

section \<open>Deleting a folder\<close>

text \<open>
  C7. \<^verbatim>\<open>delete_folder\<close> on a folder that holds a bookmark and a subfolder: the folder's
  row is gone and the subfolder still names the deleted id as its parent, but the
  bookmark's \<^verbatim>\<open>folder_id\<close> still names the deleted id too; it is not set to NULL as the
  docstring of \<^verbatim>\<open>delete_folder\<close> says.
\<close>

theorem delete_folder_keeps_bookmark_reference:
  "map f_id (folders (delete_folder ''p'' filed_store)) = [''c''] \<and>
   map f_parent_id (folders (delete_folder ''p'' filed_store)) = [Some ''p''] \<and>
   map b_folder_id (bookmarks filed_store) = [Some ''p''] \<and>
   map b_folder_id (bookmarks (delete_folder ''p'' filed_store)) = [Some ''p'']"
  by (simp add: delete_folder_def filed_store_def two_level_store_def empty_store_def
      sample_bookmark_def)

section \<open>Export of the folder tree\<close>

lemma dom_append_child: "dom (append_child fm i c) = dom fm"
  by (auto simp: append_child_def split: option.splits)

lemma dom_export_folder:
  "dom (folder_map (export_folder f st)) = insert (f_id f) (dom (folder_map st))"
  by (auto simp: export_folder_def Let_def dom_append_child)

lemma dom_export_folders:
  "dom (folder_map (export_folders rows st)) = set (map f_id rows) \<union> dom (folder_map st)"
  by (induction rows arbitrary: st) (auto simp: dom_export_folder)

lemma export_folders_append:
  "export_folders (xs @ ys) st = export_folders ys (export_folders xs st)"
  by (induction xs arbitrary: st) simp_all

lemma has_child_append_child:
  "has_child (st\<lparr>folder_map := append_child (folder_map st) i c\<rparr>) p x \<longleftrightarrow>
     has_child st p x \<or> (p = i \<and> i \<in> dom (folder_map st) \<and> c = Folder_ref x)"
  by (auto simp: has_child_def append_child_def split: option.splits)

lemma has_child_export_folder_new:
  assumes "f_parent_id ch = Some p" and "p \<noteq> []" and "p \<in> dom (folder_map st)"
  shows "has_child (export_folder ch st) p (f_id ch)"
  using assms
  by (auto simp: export_folder_def Let_def has_child_def append_child_def split: option.splits)

lemma has_child_export_folder_keep:
  assumes "has_child st p c" and "f_id r \<noteq> p"
  shows "has_child (export_folder r st) p c"
  using assms
  by (auto simp: export_folder_def Let_def has_child_def append_child_def split: option.splits)

lemma has_child_export_folders_keep:
  assumes "has_child st p c" and "p \<notin> set (map f_id rows)"
  shows "has_child (export_folders rows st) p c"
  using assms
proof (induction rows arbitrary: st)
  case Nil
  then show ?case by simp
next
  case (Cons r rows)
  then have "has_child (export_folder r st) p c" by (auto intro: has_child_export_folder_keep)
  with Cons show ?case by simp
qed

lemma has_child_export_bookmark:
  "has_child st p c \<Longrightarrow> has_child (export_bookmark b st) p c"
  by (auto simp: export_bookmark_def has_child_def append_child_def split: option.splits)

lemma has_child_export_bookmarks:
  "has_child st p c \<Longrightarrow> has_child (export_bookmarks bs st) p c"
  by (induction bs arbitrary: st) (auto intro: has_child_export_bookmark)

lemma export_folders_attaches:
  assumes rows: "rows = pre @ par # mid @ ch # post" and d: "distinct (map f_id rows)"
    and p: "f_parent_id ch = Some (f_id par)" and ne: "f_id par \<noteq> []"
  shows "has_child (export_folders rows st) (f_id par) (f_id ch)"
proof -
  let ?s1 = "export_folders (pre @ par # mid) st"
  have "f_id par \<in> dom (folder_map ?s1)" by (simp add: dom_export_folders)
  from has_child_export_folder_new [OF p ne this]
  have "has_child (export_folder ch ?s1) (f_id par) (f_id ch)" .
  moreover from d rows have "f_id par \<notin> set (map f_id post)" by auto
  ultimately have "has_child (export_folders post (export_folder ch ?s1)) (f_id par) (f_id ch)"
    by (rule has_child_export_folders_keep)
  moreover have "export_folders rows st = export_folders post (export_folder ch ?s1)"
    using export_folders_append [of "pre @ par # mid" "ch # post" st] rows by simp
  ultimately show ?thesis by simp
qed

lemma export_inv_folder:
  assumes "export_inv seen st"
  shows "export_inv (seen @ [f]) (export_folder f st)"
proof -
  let ?fm = "(folder_map st)(f_id f \<mapsto> \<lparr>fn_guid = f_id f, fn_title = f_name f, fn_children = []\<rparr>)"
  let ?s1 = "st\<lparr>folder_map := ?fm\<rparr>"
  have hc1: "has_child ?s1 q i \<Longrightarrow> has_child st q i" for q i
    by (auto simp: has_child_def split: if_splits)
  have inv1: "export_inv (seen @ [f]) ?s1"
    using assms hc1 unfolding export_inv_def by (auto; blast)
  show ?thesis
  proof (cases "truthy (f_parent_id f)")
    case False
    then have "export_folder f st = ?s1\<lparr>root_children := root_children st @ [Folder_ref (f_id f)]\<rparr>"
      by (simp add: export_folder_def Let_def)
    moreover have "export_inv (seen @ [f])
        (?s1\<lparr>root_children := root_children st @ [Folder_ref (f_id f)]\<rparr>)"
      using inv1 False unfolding export_inv_def has_child_def by auto
    ultimately show ?thesis by simp
  next
    case True
    then obtain p where p: "f_parent_id f = Some p" "p \<noteq> []" by (cases "f_parent_id f") auto
    show ?thesis
    proof (cases "p \<in> dom ?fm")
      case False
      with True p have "export_folder f st = ?s1" by (simp add: export_folder_def Let_def)
      with inv1 show ?thesis by simp
    next
      case in_dom: True
      with True p have eq: "export_folder f st =
          ?s1\<lparr>folder_map := append_child (folder_map ?s1) p (Folder_ref (f_id f))\<rparr>"
        by (simp add: export_folder_def Let_def)
      have "export_inv (seen @ [f])
          (?s1\<lparr>folder_map := append_child (folder_map ?s1) p (Folder_ref (f_id f))\<rparr>)"
        unfolding export_inv_def has_child_append_child
        using inv1 p unfolding export_inv_def by (auto simp: dom_append_child)
      with eq show ?thesis by simp
    qed
  qed
qed

lemma export_inv_folders:
  "export_inv seen st \<Longrightarrow> export_inv (seen @ rows) (export_folders rows st)"
proof (induction rows arbitrary: seen st)
  case Nil
  then show ?case by simp
next
  case (Cons r rows)
  from export_inv_folder [OF Cons.prems] have "export_inv (seen @ [r]) (export_folder r st)" .
  from Cons.IH [OF this] show ?case by simp
qed

lemma export_inv_bookmark: "export_inv seen st \<Longrightarrow> export_inv seen (export_bookmark b st)"
proof (cases "truthy (b_folder_id b) \<and> the (b_folder_id b) \<in> dom (folder_map st)")
  case True
  assume "export_inv seen st"
  with True show ?thesis
    unfolding export_inv_def export_bookmark_def
    by (simp add: has_child_append_child dom_append_child)
next
  case False
  then have eq: "export_bookmark b st = st\<lparr>unorganized_bookmarks :=
      unorganized_bookmarks st @ [Bookmark_leaf (bookmark_node b)]\<rparr>"
    unfolding export_bookmark_def by (simp only: if_False)
  have "has_child (st\<lparr>unorganized_bookmarks := u\<rparr>) q i = has_child st q i" for u q i
    by (simp add: has_child_def)
  moreover assume "export_inv seen st"
  ultimately show ?thesis
    unfolding export_inv_def eq by simp
qed

lemma export_inv_bookmarks: "export_inv seen st \<Longrightarrow> export_inv seen (export_bookmarks bs st)"
  by (induction bs arbitrary: st) (auto intro: export_inv_bookmark)

lemma export_inv_loops: "export_inv (folders_query db) (export_loops db)"
proof -
  have "export_inv [] \<lparr>folder_map = Map.empty, root_children = [], unorganized_bookmarks = []\<rparr>"
    by (simp add: export_inv_def has_child_def)
  from export_inv_folders [OF this, of "folders_query db"] show ?thesis
    unfolding export_loops_def by (auto intro: export_inv_bookmarks)
qed

lemma sorted_split:
  assumes "sorted (map k rows)" and "x \<in> set rows" and "y \<in> set rows" and "k x < k y"
  shows "\<exists>pre mid post. rows = pre @ x # mid @ y # post"
proof -
  from assms(3) obtain a b where ab: "rows = a @ y # b" by (meson split_list)
  from assms(4) have "x \<noteq> y" by auto
  with assms(2) ab consider "x \<in> set a" | "x \<in> set b" by auto
  then show ?thesis
  proof cases
    case 1
    then obtain pre mid where "a = pre @ x # mid" by (meson split_list)
    with ab have "rows = pre @ x # mid @ y # b" by simp
    then show ?thesis by blast
  next
    case 2
    with assms(1) ab have "k y \<le> k x" by (auto simp: sorted_append)
    with assms(4) show ?thesis by simp
  qed
qed

lemma distinct_folders_query:
  "distinct (map f_id (folders db)) \<Longrightarrow> distinct (map f_id (folders_query db))"
  by (simp add: folders_query_def distinct_map)

text \<open>
  What the export does do with the folders, the ids being distinct: a folder whose
  parent's row is read before its own, which is so whenever the parent's name sorts
  strictly before the folder's name, is attached to the parent's node; and a folder whose
  non-empty parent id is the id of no folder is in no list of the export, neither under
  the toolbar nor in any folder's children.
\<close>

lemma export_attaches_after_parent_and_omits_orphans:
  assumes "distinct (map f_id (folders db))"
  shows "(\<forall>pre par mid ch post.
            folders_query db = pre @ par # mid @ ch # post \<and>
            f_parent_id ch = Some (f_id par) \<and> f_id par \<noteq> [] \<longrightarrow>
            has_child (export_loops db) (f_id par) (f_id ch)) \<and>
         (\<forall>par \<in> set (folders db). \<forall>ch \<in> set (folders db).
            f_parent_id ch = Some (f_id par) \<and> f_id par \<noteq> [] \<and> f_name par < f_name ch \<longrightarrow>
            has_child (export_loops db) (f_id par) (f_id ch)) \<and>
         (\<forall>x \<in> set (folders db). \<forall>p.
            f_parent_id x = Some p \<and> p \<noteq> [] \<and> p \<notin> set (map f_id (folders db)) \<longrightarrow>
            Folder_ref (f_id x) \<notin> set (root_children (export_loops db)) \<and>
            Folder_ref (f_id x) \<notin> set (unorganized_bookmarks (export_loops db)) \<and>
            (\<forall>q. \<not> has_child (export_loops db) q (f_id x)))"
proof -
  let ?rows = "folders_query db"
  let ?st0 = "\<lparr>folder_map = Map.empty, root_children = [], unorganized_bookmarks = []\<rparr>"
  have d: "distinct (map f_id ?rows)" using assms by (rule distinct_folders_query)
  have set_rows: "set ?rows = set (folders db)" by (simp add: folders_query_def)
  have attach: "has_child (export_loops db) (f_id par) (f_id ch)"
    if "?rows = pre @ par # mid @ ch # post" "f_parent_id ch = Some (f_id par)" "f_id par \<noteq> []"
    for pre par mid ch post
    using export_folders_attaches [OF that(1) d that(2,3), of ?st0]
    unfolding export_loops_def by (rule has_child_export_bookmarks)
  have by_name: "has_child (export_loops db) (f_id par) (f_id ch)"
    if "par \<in> set (folders db)" "ch \<in> set (folders db)" "f_parent_id ch = Some (f_id par)"
      "f_id par \<noteq> []" "f_name par < f_name ch" for par ch
  proof -
    have "sorted (map f_name ?rows)" by (simp add: folders_query_def)
    from sorted_split [OF this _ _ that(5)] that(1,2) set_rows
    obtain pre mid post where "?rows = pre @ par # mid @ ch # post" by blast
    from attach [OF this that(3,4)] show ?thesis .
  qed
  have orphan: "Folder_ref (f_id x) \<notin> set (root_children (export_loops db)) \<and>
      Folder_ref (f_id x) \<notin> set (unorganized_bookmarks (export_loops db)) \<and>
      (\<forall>q. \<not> has_child (export_loops db) q (f_id x))"
    if x: "x \<in> set (folders db)" and p: "f_parent_id x = Some p" "p \<noteq> []"
      and dangling: "p \<notin> set (map f_id (folders db))" for x p
  proof -
    note inv = export_inv_loops [of db, unfolded export_inv_def]
    have same: "r = x" if "r \<in> set ?rows" "f_id r = f_id x" for r
      using unique_row [OF assms, of r x] that x set_rows by simp
    have "Folder_ref (f_id x) \<notin> set (root_children (export_loops db))"
    proof
      assume "Folder_ref (f_id x) \<in> set (root_children (export_loops db))"
      with inv obtain r where r: "r \<in> set ?rows" "f_id r = f_id x" "\<not> truthy (f_parent_id r)"
        by blast
      from same [OF r(1,2)] r(3) p show False by simp
    qed
    moreover have "\<not> has_child (export_loops db) q (f_id x)" for q
    proof
      assume hc: "has_child (export_loops db) q (f_id x)"
      with inv obtain r where r: "r \<in> set ?rows" "f_id r = f_id x" "f_parent_id r = Some q"
        by blast
      from same [OF r(1,2)] r(3) p have "q = p" by simp
      moreover from hc have "q \<in> dom (folder_map (export_loops db))"
        by (auto simp: has_child_def)
      with inv have "q \<in> set (map f_id ?rows)" by blast
      ultimately show False using dangling set_rows by simp
    qed
    moreover from inv have "Folder_ref (f_id x) \<notin> set (unorganized_bookmarks (export_loops db))"
      by blast
    ultimately show ?thesis by blast
  qed
  from attach by_name orphan show ?thesis by blast
qed

lemma export_attaches_after_parent_and_omits_orphans_example:
  "distinct (map f_id (folders nested_store)) \<and>
   has_child (export_loops nested_store) ''a'' ''b'' \<and>
   Folder_ref ''o'' \<notin> set (root_children (export_loops nested_store)) \<and>
   Folder_ref ''o'' \<notin> set (unorganized_bookmarks (export_loops nested_store)) \<and>
   (\<forall>q. \<not> has_child (export_loops nested_store) q ''o'')"
proof -
  let ?a = "\<lparr>f_id = ''a'', f_name = ''Projects'', f_parent_id = None, f_created_at = 0\<rparr>"
  let ?b = "\<lparr>f_id = ''b'', f_name = ''Python'', f_parent_id = Some ''a'', f_created_at = 0\<rparr>"
  let ?o = "\<lparr>f_id = ''o'', f_name = ''Orphan'', f_parent_id = Some ''gone'', f_created_at = 0\<rparr>"
  have d: "distinct (map f_id (folders nested_store))"
    by (simp add: nested_store_def empty_store_def)
  have mem: "?a \<in> set (folders nested_store)" "?b \<in> set (folders nested_store)"
    "?o \<in> set (folders nested_store)"
    by (simp_all add: nested_store_def empty_store_def)
  have lt: "f_name ?a < f_name ?b" by code_simp
  have gone: "''gone'' \<notin> set (map f_id (folders nested_store))"
    by (simp add: nested_store_def empty_store_def)
  note t = export_attaches_after_parent_and_omits_orphans [OF d]
  from t mem(1,2) lt have "has_child (export_loops nested_store) (f_id ?a) (f_id ?b)"
    by (metis folder.select_convs(1,3) list.distinct(1))
  moreover from t mem(3) gone
  have "Folder_ref (f_id ?o) \<notin> set (root_children (export_loops nested_store)) \<and>
      Folder_ref (f_id ?o) \<notin> set (unorganized_bookmarks (export_loops nested_store)) \<and>
      (\<forall>q. \<not> has_child (export_loops nested_store) q (f_id ?o))"
    by (metis folder.select_convs(3) list.distinct(1))
  ultimately show ?thesis using d by simp
qed

text \<open>
  C3. The export at two stores. In \<open>two_level_store\<close> the subfolder Projects of the
  folder Work is read before its parent (the rows come ordered by name) and is attached
  nowhere: the node of Work has no children and the toolbar holds Work alone. In
  \<open>nested_store\<close> the folder Orphan, whose parent id is the id of no folder, is not made
  a root: the toolbar holds the folder Projects alone.
\<close>

theorem export_drops_early_child_and_orphan:
  "map f_name (folders_query two_level_store) = [''Projects'', ''Work''] \<and>
   map_option fn_children (folder_map (export_loops two_level_store) ''p'') = Some [] \<and>
   root_children (export_loops two_level_store) = [Folder_ref ''p''] \<and>
   unorganized_bookmarks (export_loops two_level_store) = [] \<and>
   root_children (export_loops nested_store) = [Folder_ref ''a''] \<and>
   unorganized_bookmarks (export_loops nested_store) = []"
  by code_simp

section \<open>Import of containers\<close>

lemma create_tag_folders: "create_tag i name db = Inr db' \<Longrightarrow> folders db' = folders db"
  by (auto simp: create_tag_def split: if_splits)

lemma create_bookmark_folders:
  "create_bookmark i url title d f tids fav db = Inr db' \<Longrightarrow> folders db' = folders db"
  by (auto simp: create_bookmark_def split: sum.splits)

lemma import_tags_folders:
  "import_tags env names tids st = Inr (tids', st') \<Longrightarrow>
     folders (im_db st') = folders (im_db st) \<and> im_folders st' = im_folders st"
proof (induction env names tids st rule: import_tags.induct)
  case (1 env tag_ids st)
  then show ?case by simp
next
  case (2 env tag_name rest tag_ids st)
  show ?case
  proof (cases "strip tag_name = []")
    case True
    then have "import_tags env (tag_name # rest) tag_ids st = import_tags env rest tag_ids st"
      by (simp add: Let_def)
    with "2.prems" have "import_tags env rest tag_ids st = Inr (tids', st')" by simp
    moreover from True have "\<not> strip tag_name \<noteq> []" by simp
    ultimately show ?thesis using "2.IH"(3) [OF refl] by simp
  next
    case ne: False
    show ?thesis
    proof (cases "find (\<lambda>t. t_name t = strip tag_name) (tags (im_db st))")
      case (Some t)
      with ne have "import_tags env (tag_name # rest) tag_ids st =
          import_tags env rest (tag_ids @ [t_id t]) st"
        by (simp add: Let_def)
      with "2.prems" have "import_tags env rest (tag_ids @ [t_id t]) st = Inr (tids', st')"
        by simp
      from "2.IH"(2) [OF refl ne Some this] show ?thesis .
    next
      case None
      let ?st1 = "\<lambda>db. st\<lparr>im_db := db, im_tags := im_tags st + 1, uuid_calls := uuid_calls st + 1\<rparr>"
      from ne None have eq: "import_tags env (tag_name # rest) tag_ids st =
          (case create_tag (uuid4 env (uuid_calls st)) (strip tag_name) (im_db st) of
             Inl e \<Rightarrow> Inl e
           | Inr db \<Rightarrow> import_tags env rest (tag_ids @ [uuid4 env (uuid_calls st)]) (?st1 db))"
        by (simp add: Let_def)
      with "2.prems" obtain db where
        db: "create_tag (uuid4 env (uuid_calls st)) (strip tag_name) (im_db st) = Inr db" and
        r: "import_tags env rest (tag_ids @ [uuid4 env (uuid_calls st)]) (?st1 db) =
            Inr (tids', st')"
        by (cases "create_tag (uuid4 env (uuid_calls st)) (strip tag_name) (im_db st)") auto
      from "2.IH"(1) [OF refl ne None db r]
      have "folders (im_db st') = folders (im_db (?st1 db)) \<and>
          im_folders st' = im_folders (?st1 db)" .
      with create_tag_folders [OF db] show ?thesis by simp
    qed
  qed
qed

lemma import_bookmark_folders:
  assumes "import_bookmark env node parent st = Inr st'"
  shows "folders (im_db st') = folders (im_db st) \<and> im_folders st' = im_folders st"
proof (cases "truthy (n_uri node)")
  case False
  with assms show ?thesis by (simp add: import_bookmark_def Let_def)
next
  case True
  with assms obtain names tids st1 db where
    t: "import_tags env names [] st = Inr (tids, st1)" and
    b: "create_bookmark (uuid4 env (uuid_calls st1)) (the (n_uri node))
          (the (case n_title node of None \<Rightarrow> n_uri node | Some t \<Rightarrow> Some t))
          (description_of (case n_annos node of None \<Rightarrow> [] | Some a \<Rightarrow> a)) parent tids
          (download_favicon env (the (n_uri node))) (im_db st1) = Inr db" and
    s: "st' = st1\<lparr>im_db := db, im_bookmarks := im_bookmarks st1 + 1,
          uuid_calls := uuid_calls st1 + 1\<rparr>"
    by (auto simp: import_bookmark_def Let_def split: sum.splits prod.splits)
  from import_tags_folders [OF t] create_bookmark_folders [OF b] s show ?thesis by simp
qed

lemma process_folders_mono:
  "process_container env node parent st = Inr st' \<Longrightarrow>
     (\<exists>new. folders (im_db st') = folders (im_db st) @ new) \<and> im_folders st \<le> im_folders st'"
  "process_children env nodes parent st = Inr st' \<Longrightarrow>
     (\<exists>new. folders (im_db st') = folders (im_db st) @ new) \<and> im_folders st \<le> im_folders st'"
proof (induction env node parent st and env nodes parent st arbitrary: st' and st'
    rule: process_container_process_children.induct)
  case (1 env ty guid title uri annos tgs kids parent_id st)
  let ?node = "Node ty guid title uri annos tgs kids"
  show ?case
  proof (cases "ty = Some container_type")
    case False
    show ?thesis
    proof (cases "ty = Some place_type")
      case True
      with False "1.prems" have "import_bookmark env ?node parent_id st = Inr st'" by simp
      from import_bookmark_folders [OF this] show ?thesis by simp
    next
      case np: False
      with False "1.prems" show ?thesis by simp
    qed
  next
    case c: True
    show ?thesis
    proof (cases "(case guid of None \<Rightarrow> [] | Some g \<Rightarrow> g) \<in> set special_guids")
      case True
      with c "1.prems" "1.IH"(1) show ?thesis by simp
    next
      case ns: False
      let ?t = "case title of None \<Rightarrow> ''Untitled Folder'' | Some t \<Rightarrow> t"
      show ?thesis
      proof (cases "?t = []")
        case True
        with c ns "1.prems" show ?thesis by simp
      next
        case ne: False
        let ?fid = "uuid4 env (uuid_calls st)"
        let ?st1 = "st\<lparr>im_db := create_folder ?fid ?t parent_id (im_db st),
                       folder_mapping := (folder_mapping st)(guid \<mapsto> ?fid),
                       im_folders := im_folders st + 1, uuid_calls := uuid_calls st + 1\<rparr>"
        from c ns ne "1.prems" have r: "process_children env kids (Some ?fid) ?st1 = Inr st'"
          by (simp add: Let_def)
        from "1.IH"(2) [OF c ns refl ne refl refl r]
        obtain new where "folders (im_db st') = folders (im_db ?st1) @ new"
          and "im_folders ?st1 \<le> im_folders st'" by blast
        then show ?thesis by (simp add: create_folder_def)
      qed
    qed
  qed
next
  case (2 env parent_id st)
  then show ?case by simp
next
  case (3 env child rest parent_id st)
  from "3.prems" obtain st1 where
    a: "process_container env child parent_id st = Inr st1" and
    b: "process_children env rest parent_id st1 = Inr st'"
    by (auto split: sum.splits)
  from "3.IH"(1) [OF a] "3.IH"(2) [OF a b] show ?case by fastforce
qed

lemma process_container_unfold:
  "process_container env node parent_id st =
     (if n_type node = Some container_type then
        (if guid_of node \<in> set special_guids
         then process_children env (n_children node) parent_id st
         else if folder_title_of node \<noteq> [] then
           process_children env (n_children node) (Some (uuid4 env (uuid_calls st)))
             (st\<lparr>im_db := create_folder (uuid4 env (uuid_calls st)) (folder_title_of node)
                        parent_id (im_db st),
                 folder_mapping := (folder_mapping st)(n_guid node \<mapsto> uuid4 env (uuid_calls st)),
                 im_folders := im_folders st + 1, uuid_calls := uuid_calls st + 1\<rparr>)
         else Inr st)
      else if n_type node = Some place_type then import_bookmark env node parent_id st
      else Inr st)"
  by (cases node) (simp add: guid_of_def folder_title_of_def Let_def)

text \<open>
  C4 (as amended). For a container node: with one of the five special guids it creates no
  folder of its own and its children are processed in the current parent scope; with any
  other guid and a title that is present but empty it is skipped with all its children;
  with any other guid and a non-empty title, or no title key at all (the title is then
  Untitled Folder), it becomes a new folder whose parent is the current scope, counted in
  \<^verbatim>\<open>stats['folders']\<close>, and its children are processed with the new folder as scope.
  Importing a toolbar container that holds one bookmark with a URL gives one bookmark and
  no folder.
\<close>

theorem process_container_on_containers:
  assumes "n_type node = Some container_type"
  shows
    "(guid_of node \<in> set special_guids \<longrightarrow>
        process_container env node parent_id st =
          process_children env (n_children node) parent_id st) \<and>
     (guid_of node \<notin> set special_guids \<and> n_title node = Some [] \<longrightarrow>
        process_container env node parent_id st = Inr st) \<and>
     (guid_of node \<notin> set special_guids \<and> n_title node \<noteq> Some [] \<longrightarrow>
        process_container env node parent_id st =
          process_children env (n_children node) (Some (uuid4 env (uuid_calls st)))
            (st\<lparr>im_db := create_folder (uuid4 env (uuid_calls st)) (folder_title_of node)
                       parent_id (im_db st),
                folder_mapping := (folder_mapping st)(n_guid node \<mapsto> uuid4 env (uuid_calls st)),
                im_folders := im_folders st + 1, uuid_calls := uuid_calls st + 1\<rparr>) \<and>
        (\<forall>st'. process_container env node parent_id st = Inr st' \<longrightarrow>
           (\<exists>new. folders (im_db st') = folders (im_db st) @
              \<lparr>f_id = uuid4 env (uuid_calls st), f_name = folder_title_of node,
               f_parent_id = parent_id, f_created_at = current_timestamp (im_db st)\<rparr> # new) \<and>
           im_folders st < im_folders st')) \<and>
     (case import_from_firefox_json example_env toolbar_doc empty_store of
        Inl e \<Rightarrow> False
      | Inr s \<Rightarrow> im_bookmarks s = 1 \<and> im_folders s = 0)"
proof -
  let ?fid = "uuid4 env (uuid_calls st)"
  let ?st1 = "st\<lparr>im_db := create_folder ?fid (folder_title_of node) parent_id (im_db st),
                folder_mapping := (folder_mapping st)(n_guid node \<mapsto> ?fid),
                im_folders := im_folders st + 1, uuid_calls := uuid_calls st + 1\<rparr>"
  have special: "process_container env node parent_id st =
      process_children env (n_children node) parent_id st"
    if "guid_of node \<in> set special_guids"
    using that assms by (simp add: process_container_unfold)
  have empty: "process_container env node parent_id st = Inr st"
    if "guid_of node \<notin> set special_guids" "n_title node = Some []"
    using that assms by (simp add: process_container_unfold folder_title_of_def)
  have titled: "process_container env node parent_id st =
      process_children env (n_children node) (Some ?fid) ?st1"
    if "guid_of node \<notin> set special_guids" "n_title node \<noteq> Some []"
  proof -
    from that(2) have "folder_title_of node \<noteq> []"
      by (cases "n_title node") (auto simp: folder_title_of_def)
    with that(1) assms show ?thesis by (simp add: process_container_unfold)
  qed
  have created: "(\<exists>new. folders (im_db st') = folders (im_db st) @
        \<lparr>f_id = ?fid, f_name = folder_title_of node, f_parent_id = parent_id,
         f_created_at = current_timestamp (im_db st)\<rparr> # new) \<and> im_folders st < im_folders st'"
    if "guid_of node \<notin> set special_guids" "n_title node \<noteq> Some []"
      "process_container env node parent_id st = Inr st'" for st'
  proof -
    from titled [OF that(1,2)] that(3)
    have "process_children env (n_children node) (Some ?fid) ?st1 = Inr st'" by simp
    from process_folders_mono(2) [OF this] obtain new where
      "folders (im_db st') = folders (im_db ?st1) @ new" "im_folders ?st1 \<le> im_folders st'"
      by blast
    then show ?thesis by (simp add: create_folder_def)
  qed
  have scenario: "case import_from_firefox_json example_env toolbar_doc empty_store of
        Inl e \<Rightarrow> False
      | Inr s \<Rightarrow> im_bookmarks s = 1 \<and> im_folders s = 0"
    by (simp add: import_from_firefox_json_def toolbar_doc_def process_container_unfold
        guid_of_def special_guids_def container_type_def place_type_def import_bookmark_def
        create_bookmark_def Let_def)
  from special empty titled created scenario show ?thesis by blast
qed

theorem process_container_on_containers_witness:
  "n_type folder_doc = Some container_type \<and> guid_of folder_doc \<notin> set special_guids \<and>
   n_title folder_doc \<noteq> Some [] \<and>
   process_container example_env folder_doc None initial_import_state =
     process_children example_env (n_children folder_doc) (Some ''u'')
       (initial_import_state\<lparr>
          im_db := create_folder ''u'' ''Imported Folder'' None empty_store,
          folder_mapping := [Some ''folder1'' \<mapsto> ''u''],
          im_folders := 1, uuid_calls := 1\<rparr>) \<and>
   (case process_container example_env folder_doc None initial_import_state of
      Inl e \<Rightarrow> False
    | Inr s \<Rightarrow> map f_name (folders (im_db s)) = [''Imported Folder''] \<and>
        map b_folder_id (bookmarks (im_db s)) = [Some ''u''] \<and>
        map t_name (tags (im_db s)) = [''tag1'', ''tag2''] \<and>
        im_folders s = 1 \<and> im_bookmarks s = 1 \<and> im_tags s = 2)"
proof -
  have ty: "n_type folder_doc = Some container_type" by (simp add: folder_doc_def)
  have g: "guid_of folder_doc \<notin> set special_guids"
    by (simp add: folder_doc_def guid_of_def special_guids_def)
  have t: "n_title folder_doc \<noteq> Some []" by (simp add: folder_doc_def)
  have u: "uuid4 example_env 0 = ''u''"
    by (simp add: example_env_def)
  have ft: "folder_title_of folder_doc = ''Imported Folder''"
    by (simp add: folder_title_of_def folder_doc_def)
  have st: "im_db initial_import_state = empty_store" "im_folders initial_import_state = 0"
    "uuid_calls initial_import_state = 0" "folder_mapping initial_import_state = Map.empty"
    "n_guid folder_doc = Some ''folder1''"
    by (simp_all add: initial_import_state_def folder_doc_def)
  have run: "case process_container example_env folder_doc None initial_import_state of
      Inl e \<Rightarrow> False
    | Inr s \<Rightarrow> map f_name (folders (im_db s)) = [''Imported Folder''] \<and>
        map b_folder_id (bookmarks (im_db s)) = [Some ''u''] \<and>
        map t_name (tags (im_db s)) = [''tag1'', ''tag2''] \<and>
        im_folders s = 1 \<and> im_bookmarks s = 1 \<and> im_tags s = 2"
    by code_simp
  from process_container_on_containers [OF ty, of example_env None initial_import_state] g t
  have "process_container example_env folder_doc None initial_import_state =
     process_children example_env (n_children folder_doc) (Some ''u'')
       (initial_import_state\<lparr>
          im_db := create_folder ''u'' ''Imported Folder'' None empty_store,
          folder_mapping := [Some ''folder1'' \<mapsto> ''u''],
          im_folders := 1, uuid_calls := 1\<rparr>)"
    by (simp add: u ft st)
  with ty g t run show ?thesis by blast
qed

text \<open>
  C4 as stated fails for a container that has no title key: it is not skipped but becomes
  the folder Untitled Folder, with its bookmark filed in it.
\<close>

theorem untitled_container_counterexample:
  "n_title (hd (n_children untitled_doc)) = None \<and>
   guid_of (hd (n_children untitled_doc)) \<notin> set special_guids \<and>
   (case import_from_firefox_json example_env untitled_doc empty_store of
      Inl e \<Rightarrow> False
    | Inr s \<Rightarrow> map f_name (folders (im_db s)) = [''Untitled Folder''] \<and>
        map b_folder_id (bookmarks (im_db s)) = [Some ''u''] \<and>
        im_folders s = 1 \<and> im_bookmarks s = 1)"
  by code_simp

section \<open>Export followed by import\<close>

text \<open>
  C2. The store \<open>work_store\<close> has the folders Work and Projects, Projects inside Work,
  and one bookmark with title and URL inside Projects; its parent relation is acyclic.
  The exported document holds the folder Work alone, and the import of that document into
  the empty store yields one folder and no bookmark: the subfolder and its bookmark are
  lost.
\<close>

theorem export_import_loses_subfolder:
  "map f_name (folders work_store) = [''Work'', ''Projects''] \<and>
   map f_parent_id (folders work_store) = [None, Some ''p''] \<and>
   map b_title (bookmarks work_store) = [''Python''] \<and>
   map b_folder_id (bookmarks work_store) = [Some ''c''] \<and>
   export_to_firefox_json 3 work_store =
     Some (Node (Some container_type) (Some ''root________'') (Some '''') None None None
       [Node (Some container_type) (Some ''toolbar_____'') (Some ''Bookmarks Toolbar'')
          None None None
          [Node (Some container_type) (Some ''p'') (Some ''Work'') None None None []]]) \<and>
   (case import_from_firefox_json example_env (the (export_to_firefox_json 3 work_store))
           empty_store of
      Inl e \<Rightarrow> False
    | Inr s \<Rightarrow> map f_name (folders (im_db s)) = [''Work''] \<and> bookmarks (im_db s) = [] \<and>
        im_folders s = 1 \<and> im_bookmarks s = 0)"
  by code_simp

end
